theory Spec2Isabelle
  imports Main "HOL-Library.Sublist"
begin

section \<open>The converter of osquery-defense-kit queries to FleetDM YAML\<close>

text \<open>
  A shallow embedding of \<^verbatim>\<open>cmd/convert/main.go\<close>. A Go string is its sequence of
  bytes, a \<^typ>\<open>string\<close>. The functions of Go's standard library that the program calls
  are modelled first, each under the name it has in Go; the program's own functions follow
  under their own names.
\<close>

subsection \<open>Prefixes, suffixes, replacement, joining and splitting\<close>

definition hasPrefix :: "string \<Rightarrow> string \<Rightarrow> bool" where
  \<comment> \<open>\<^verbatim>\<open>strings.HasPrefix(s, p)\<close>\<close>
  "hasPrefix s p = (take (length p) s = p)"

definition hasSuffix :: "string \<Rightarrow> string \<Rightarrow> bool" where
  \<comment> \<open>\<^verbatim>\<open>strings.HasSuffix(s, p)\<close>\<close>
  "hasSuffix s p = (length p \<le> length s \<and> drop (length s - length p) s = p)"

definition trimPrefix :: "string \<Rightarrow> string \<Rightarrow> string" where
  \<comment> \<open>\<^verbatim>\<open>strings.TrimPrefix(s, p)\<close>: one occurrence of the prefix is removed.\<close>
  "trimPrefix s p = (if hasPrefix s p then drop (length p) s else s)"

definition trimSuffix :: "string \<Rightarrow> string \<Rightarrow> string" where
  \<comment> \<open>\<^verbatim>\<open>strings.TrimSuffix(s, p)\<close>\<close>
  "trimSuffix s p = (if hasSuffix s p then take (length s - length p) s else s)"

definition containsAny :: "string \<Rightarrow> string \<Rightarrow> bool" where
  \<comment> \<open>\<^verbatim>\<open>strings.ContainsAny(s, chars)\<close> for a set of ASCII characters: a byte below 0x80
      never lies inside the encoding of another character, so the test is bytewise.\<close>
  "containsAny s chars = list_ex (\<lambda>c. c \<in> set chars) s"

definition replaceAll :: "string \<Rightarrow> char \<Rightarrow> string \<Rightarrow> string" where
  \<comment> \<open>\<^verbatim>\<open>strings.ReplaceAll(s, old, new)\<close> where \<^verbatim>\<open>old\<close> is one ASCII character, as at
      every call in the program.\<close>
  "replaceAll s old new = concat (map (\<lambda>c. if c = old then new else [c]) s)"

fun join :: "string list \<Rightarrow> string \<Rightarrow> string" where
  \<comment> \<open>\<^verbatim>\<open>strings.Join(elems, sep)\<close>\<close>
  "join [] sep = []"
| "join [x] sep = x"
| "join (x # y # ys) sep = x @ sep @ join (y # ys) sep"

fun splitOn :: "string \<Rightarrow> char \<Rightarrow> string list" where
  \<comment> \<open>\<^verbatim>\<open>strings.Split(s, sep)\<close> for a separator of one character: the empty string
      splits into one empty piece.\<close>
  "splitOn [] sep = [[]]"
| "splitOn (c # cs) sep =
     (if c = sep then [] # splitOn cs sep
      else (case splitOn cs sep of p # ps \<Rightarrow> (c # p) # ps | [] \<Rightarrow> [[c]]))"

subsection \<open>Decimal numbers\<close>

definition isDigit :: "char \<Rightarrow> bool" where
  \<comment> \<open>The class \<^verbatim>\<open>\d\<close> of Go's regular expressions: \<^verbatim>\<open>0\<close> to \<^verbatim>\<open>9\<close>.\<close>
  "isDigit c = (48 \<le> (of_char c :: int) \<and> (of_char c :: int) \<le> 57)"

definition digitVal :: "char \<Rightarrow> int" where
  "digitVal c = of_char c - 48"

definition decimalValue :: "string \<Rightarrow> int" where
  \<comment> \<open>The number a string of decimal digits denotes.\<close>
  "decimalValue ds = foldl (\<lambda>a d. 10 * a + digitVal d) 0 ds"

function decimalDigits :: "int \<Rightarrow> string" where
  \<comment> \<open>The decimal digits of a number that is not negative.\<close>
  "decimalDigits n =
     (if n < 10 then [char_of (48 + n)]
      else decimalDigits (n div 10) @ [char_of (48 + n mod 10)])"
  by pat_completeness auto
termination
  by (relation "measure nat") auto

declare decimalDigits.simps [simp del]

definition formatInt :: "int \<Rightarrow> string" where
  \<comment> \<open>The verb \<^verbatim>\<open>%d\<close> of \<^verbatim>\<open>fmt.Sprintf\<close>.\<close>
  "formatInt i = (if i < 0 then CHR ''-'' # decimalDigits (- i) else decimalDigits i)"

definition maxInt :: int where
  \<comment> \<open>The largest value of Go's \<^verbatim>\<open>int\<close> on a 64-bit platform.\<close>
  "maxInt = 2 ^ 63 - 1"

definition sscanInt :: "string \<Rightarrow> int \<Rightarrow> int" where
  \<comment> \<open>\<^verbatim>\<open>fmt.Sscanf(m, "%d", &x)\<close> for a non-empty string of digits \<^verbatim>\<open>m\<close> (what the
      regular expressions capture), as the new value of \<^verbatim>\<open>x\<close>: a number that does not
      fit an \<^verbatim>\<open>int\<close> makes \<^verbatim>\<open>Sscanf\<close> return an error, which the program drops, and
      leaves \<^verbatim>\<open>x\<close> as it was.\<close>
  "sscanInt m x = (if decimalValue m \<le> maxInt then decimalValue m else x)"

subsection \<open>White space\<close>

definition asciiSpace :: "char \<Rightarrow> bool" where
  \<comment> \<open>The white space of ASCII: tab, line feed, vertical tab, form feed, carriage return
      and space.\<close>
  "asciiSpace c = (c \<in> {CHR 0x09, CHR 0x0A, CHR 0x0B, CHR 0x0C, CHR 0x0D, CHR 0x20})"

fun spaceWidth :: "string \<Rightarrow> nat" where
  \<comment> \<open>The number of bytes of the white-space character (\<^verbatim>\<open>unicode.IsSpace\<close>) a string
      begins with, 0 when it begins with none. Beyond ASCII these are U+0085 and U+00A0
      (two bytes in UTF-8) and U+1680, U+2000 to U+200A, U+2028, U+2029, U+202F, U+205F
      and U+3000 (three bytes).\<close>
  "spaceWidth [] = 0"
| "spaceWidth (c # cs) =
     (if asciiSpace c then 1
      else if c = CHR 0xC2 then
        (case cs of d # _ \<Rightarrow> if d = CHR 0x85 \<or> d = CHR 0xA0 then 2 else 0 | [] \<Rightarrow> 0)
      else if c = CHR 0xE1 then (if take 2 cs = [CHR 0x9A, CHR 0x80] then 3 else 0)
      else if c = CHR 0xE2 then
        (case cs of
           d # e # _ \<Rightarrow>
             if d = CHR 0x80 \<and> ((0x80 \<le> (of_char e :: nat) \<and> (of_char e :: nat) \<le> 0x8A)
                  \<or> e = CHR 0xA8 \<or> e = CHR 0xA9 \<or> e = CHR 0xAF)
                \<or> d = CHR 0x81 \<and> e = CHR 0x9F
             then 3 else 0
         | _ \<Rightarrow> 0)
      else if c = CHR 0xE3 then (if take 2 cs = [CHR 0x80, CHR 0x80] then 3 else 0)
      else 0)"

definition lastSpaceWidth :: "string \<Rightarrow> nat" where
  \<comment> \<open>The number of bytes of the white-space character a string ends with, 0 when it
      ends with none.\<close>
  "lastSpaceWidth s =
     (let n = length s in
      if n = 0 then 0
      else if asciiSpace (last s) then 1
      else if 2 \<le> n \<and> spaceWidth (drop (n - 2) s) = 2 then 2
      else if 3 \<le> n \<and> spaceWidth (drop (n - 3) s) = 3 then 3
      else 0)"

lemma spaceWidth_le: "spaceWidth s \<le> length s"
  by (cases s) (auto split: list.splits if_splits)

lemma lastSpaceWidth_le: "lastSpaceWidth s \<le> length s"
  by (cases s) (auto simp: lastSpaceWidth_def Let_def)

function trimLeftSpace :: "string \<Rightarrow> string" where
  "trimLeftSpace s = (if spaceWidth s = 0 then s else trimLeftSpace (drop (spaceWidth s) s))"
  by pat_completeness auto
termination
proof (relation "measure length")
  fix s :: string
  assume "spaceWidth s \<noteq> 0"
  moreover have "spaceWidth s \<le> length s" by (rule spaceWidth_le)
  ultimately show "(drop (spaceWidth s) s, s) \<in> measure length" by simp
qed simp

function trimRightSpace :: "string \<Rightarrow> string" where
  "trimRightSpace s =
     (if lastSpaceWidth s = 0 then s else trimRightSpace (take (length s - lastSpaceWidth s) s))"
  by pat_completeness auto
termination
proof (relation "measure length")
  fix s :: string
  assume "lastSpaceWidth s \<noteq> 0"
  moreover have "lastSpaceWidth s \<le> length s" by (rule lastSpaceWidth_le)
  ultimately show "(take (length s - lastSpaceWidth s) s, s) \<in> measure length" by simp
qed simp

declare trimLeftSpace.simps [simp del] trimRightSpace.simps [simp del]

definition trimSpace :: "string \<Rightarrow> string" where
  \<comment> \<open>\<^verbatim>\<open>strings.TrimSpace(s)\<close>: the white-space characters at both ends are removed.\<close>
  "trimSpace s = trimRightSpace (trimLeftSpace s)"

function fieldsFrom :: "string \<Rightarrow> string \<Rightarrow> string list" where
  "fieldsFrom cur [] = (if cur = [] then [] else [cur])"
| "fieldsFrom cur (c # cs) =
     (if spaceWidth (c # cs) = 0 then fieldsFrom (cur @ [c]) cs
      else (if cur = [] then [] else [cur]) @ fieldsFrom [] (drop (spaceWidth (c # cs) - 1) cs))"
  by pat_completeness auto
termination
  by (relation "measure (\<lambda>(cur, s). length s)") auto

definition stringFields :: "string \<Rightarrow> string list" where
  \<comment> \<open>\<^verbatim>\<open>strings.Fields(s)\<close>: the pieces of \<open>s\<close> between runs of white space.\<close>
  "stringFields s = fieldsFrom [] s"

subsection \<open>Letter case\<close>

definition lowerByte :: "char \<Rightarrow> char" where
  "lowerByte c =
     (let n = (of_char c :: nat) in if 65 \<le> n \<and> n \<le> 90 then char_of (n + 32) else c)"

definition upperByte :: "char \<Rightarrow> char" where
  "upperByte c =
     (let n = (of_char c :: nat) in if 97 \<le> n \<and> n \<le> 122 then char_of (n - 32) else c)"

function toLower :: "string \<Rightarrow> string" where
  \<comment> \<open>\<^verbatim>\<open>strings.ToLower(s)\<close>. The letters of ASCII are lowered bytewise. Two characters
      beyond ASCII lower to a letter of ASCII: U+0130 (bytes C4 B0) to \<^verbatim>\<open>i\<close> and U+212A
      (bytes E2 84 AA) to \<^verbatim>\<open>k\<close>. Every other character beyond ASCII lowers to a character
      beyond ASCII, which Unicode's case tables give; the model keeps its bytes, so what it
      returns equals a string of ASCII exactly when Go's result does, which is all the
      program asks of it.\<close>
  "toLower [] = []"
| "toLower (c # cs) =
     (if c = CHR 0xC4 \<and> take 1 cs = [CHR 0xB0] then CHR ''i'' # toLower (drop 1 cs)
      else if c = CHR 0xE2 \<and> take 2 cs = [CHR 0x84, CHR 0xAA] then CHR ''k'' # toLower (drop 2 cs)
      else lowerByte c # toLower cs)"
  by pat_completeness auto
termination
  by (relation "measure length") auto

subsection \<open>Characters and their encoding\<close>

text \<open>
  \<^verbatim>\<open>strings.Title\<close> works on the characters of a string, its runes, which Go decodes from
  the bytes as UTF-8. A rune is a number; a byte that begins no well-formed sequence is read
  as the rune U+FFFD, one byte wide.
\<close>

type_synonym rune = int

definition runeError :: rune where
  \<comment> \<open>\<^verbatim>\<open>utf8.RuneError\<close>\<close>
  "runeError = 0xFFFD"

definition byteAt :: "string \<Rightarrow> nat \<Rightarrow> int" where
  \<comment> \<open>The byte \<^verbatim>\<open>s[i]\<close>, as a number.\<close>
  "byteAt s i = of_char (s ! i)"

definition decodeRune :: "string \<Rightarrow> rune \<times> nat" where
  \<comment> \<open>\<^verbatim>\<open>utf8.DecodeRuneInString(s)\<close>: the first rune of \<open>s\<close> and its width in bytes. The
      first byte gives the size \<open>sz\<close> of the sequence and the range from \<open>lo\<close> to \<open>hi\<close> that
      the second byte must lie in (the tables \<^verbatim>\<open>first\<close> and \<^verbatim>\<open>acceptRanges\<close>); the masks
      \<^verbatim>\<open>s0&mask2\<close>, \<^verbatim>\<open>s0&mask3\<close>, \<^verbatim>\<open>s0&mask4\<close> and \<^verbatim>\<open>s1&maskx\<close> are the remainders modulo
      32, 16, 8 and 64, and the shifts are multiplications.\<close>
  "decodeRune s =
     (if s = [] then (runeError, 0)
      else
        (let s0 = byteAt s 0 in
         if s0 < 0x80 then (s0, 1)
         else if s0 < 0xC2 \<or> 0xF4 < s0 then (runeError, 1)
         else
           (let sz = (if s0 < 0xE0 then 2 else if s0 < 0xF0 then 3 else 4 :: nat);
                lo = (if s0 = 0xE0 then 0xA0 else if s0 = 0xF0 then 0x90 else 0x80);
                hi = (if s0 = 0xED then 0x9F else if s0 = 0xF4 then 0x8F else 0xBF)
            in if length s < sz then (runeError, 1)
               else if byteAt s 1 < lo \<or> hi < byteAt s 1 then (runeError, 1)
               else if sz \<le> 2 then (s0 mod 32 * 64 + byteAt s 1 mod 64, 2)
               else if byteAt s 2 < 0x80 \<or> 0xBF < byteAt s 2 then (runeError, 1)
               else if sz \<le> 3
               then (s0 mod 16 * 4096 + byteAt s 1 mod 64 * 64 + byteAt s 2 mod 64, 3)
               else if byteAt s 3 < 0x80 \<or> 0xBF < byteAt s 3 then (runeError, 1)
               else (s0 mod 8 * 262144 + byteAt s 1 mod 64 * 4096 + byteAt s 2 mod 64 * 64
                       + byteAt s 3 mod 64, 4))))"

lemma decodeRune_width: "s \<noteq> [] \<Longrightarrow> 0 < snd (decodeRune s)"
  by (simp add: decodeRune_def Let_def)

lemma decodeRune_le: "snd (decodeRune s) \<le> length s"
  by (cases s) (auto simp: decodeRune_def Let_def Suc_le_eq not_less)

function runes :: "string \<Rightarrow> rune list" where
  \<comment> \<open>The runes that \<^verbatim>\<open>for _, c := range s\<close> goes through.\<close>
  "runes s = (if s = [] then [] else fst (decodeRune s) # runes (drop (snd (decodeRune s)) s))"
  by pat_completeness auto
termination
proof (relation "measure length")
  fix s :: string
  assume "s \<noteq> []"
  then have "0 < snd (decodeRune s)" by (rule decodeRune_width)
  with \<open>s \<noteq> []\<close> show "(drop (snd (decodeRune s)) s, s) \<in> measure length" by simp
qed simp

declare runes.simps [simp del]

definition encodeRune :: "rune \<Rightarrow> string" where
  \<comment> \<open>\<^verbatim>\<open>utf8.AppendRune\<close>, which \<^verbatim>\<open>WriteRune\<close> of a \<^verbatim>\<open>strings.Builder\<close> calls: the bytes of a
      rune. A surrogate and a number that is no rune at all are written as U+FFFD.\<close>
  "encodeRune r =
     (if 0 \<le> r \<and> r \<le> 0x7F then [char_of r]
      else if 0 \<le> r \<and> r \<le> 0x7FF then [char_of (0xC0 + r div 64), char_of (0x80 + r mod 64)]
      else if r < 0 \<or> 0x10FFFF < r \<or> (0xD800 \<le> r \<and> r \<le> 0xDFFF)
      then [CHR 0xEF, CHR 0xBF, CHR 0xBD]
      else if r \<le> 0xFFFF
      then [char_of (0xE0 + r div 4096), char_of (0x80 + r div 64 mod 64),
            char_of (0x80 + r mod 64)]
      else [char_of (0xF0 + r div 262144), char_of (0x80 + r div 4096 mod 64),
            char_of (0x80 + r div 64 mod 64), char_of (0x80 + r mod 64)])"

text \<open>
  Which runes beyond ASCII are letters or digits, and what their title case is, is read
  from the tables of Go's package \<^verbatim>\<open>unicode\<close>. They belong to the Go release the program
  is built with, not to the program: the model takes them as a parameter, and what is
  proved holds for every such tables.
\<close>

record unicode =
  IsLetter :: "rune \<Rightarrow> bool"
  IsDigit :: "rune \<Rightarrow> bool"
  ToTitleCase :: "rune \<Rightarrow> rune"

definition isSpace :: "rune \<Rightarrow> bool" where
  \<comment> \<open>\<^verbatim>\<open>unicode.IsSpace(r)\<close>: the white space of \<open>spaceWidth\<close>, as runes.\<close>
  "isSpace r =
     (r \<in> {0x09, 0x0A, 0x0B, 0x0C, 0x0D, 0x20, 0x85, 0xA0, 0x1680, 0x2028, 0x2029, 0x202F,
           0x205F, 0x3000}
      \<or> (0x2000 \<le> r \<and> r \<le> 0x200A))"

definition toTitle :: "unicode \<Rightarrow> rune \<Rightarrow> rune" where
  \<comment> \<open>\<^verbatim>\<open>unicode.ToTitle(r)\<close>: in ASCII the title case of a letter is its upper case;
      beyond, it is \<^verbatim>\<open>unicode.To(unicode.TitleCase, r)\<close>.\<close>
  "toTitle U r =
     (if r \<le> 0x7F then (if 97 \<le> r \<and> r \<le> 122 then r - 32 else r) else ToTitleCase U r)"

definition isSeparator :: "unicode \<Rightarrow> rune \<Rightarrow> bool" where
  \<comment> \<open>\<^verbatim>\<open>isSeparator(r)\<close> of Go's package \<^verbatim>\<open>strings\<close>: in ASCII everything but letters,
      digits and the underscore separates words; beyond ASCII a letter or a digit does
      not, and of the rest the white space does.\<close>
  "isSeparator U r =
     (if r \<le> 0x7F
      then \<not> ((48 \<le> r \<and> r \<le> 57) \<or> (97 \<le> r \<and> r \<le> 122) \<or> (65 \<le> r \<and> r \<le> 90) \<or> r = 95)
      else if IsLetter U r \<or> IsDigit U r then False
      else isSpace r)"

fun titleFrom :: "unicode \<Rightarrow> rune \<Rightarrow> rune list \<Rightarrow> rune list" where
  \<comment> \<open>The function that \<^verbatim>\<open>strings.Title\<close> maps over the runes, with the rune before,
      \<^verbatim>\<open>prev\<close>, that it remembers from one call to the next.\<close>
  "titleFrom U prev [] = []"
| "titleFrom U prev (r # rs) =
     (if isSeparator U prev then toTitle U r else r) # titleFrom U r rs"

definition writeRune :: "rune \<Rightarrow> string" where
  \<comment> \<open>What \<^verbatim>\<open>strings.Map\<close> writes for a rune that the mapping returns: nothing when it is
      negative.\<close>
  "writeRune r = (if 0 \<le> r then encodeRune r else [])"

definition title :: "unicode \<Rightarrow> string \<Rightarrow> string" where
  \<comment> \<open>\<^verbatim>\<open>strings.Title(s)\<close>, that is \<^verbatim>\<open>strings.Map\<close> of the function above, started with a
      space as the rune before. \<^verbatim>\<open>Map\<close> copies the bytes of \<open>s\<close> up to the first rune that
      the mapping changes or that is an ill-formed byte, and from there on writes the
      runes it gets; the model writes every rune, which gives the same bytes
      (\<open>encodeRune_valid\<close> below).\<close>
  "title U s = concat (map writeRune (titleFrom U 0x20 (runes s)))"

definition latin1 :: unicode where
  \<comment> \<open>Tables for examples: the letters of Latin-1 (U+0080 to U+00FF) and their title
      case as Unicode has them, and nothing beyond.\<close>
  "latin1 =
     \<lparr>IsLetter = (\<lambda>r. r \<in> {0xAA, 0xB5, 0xBA} \<or> (0xC0 \<le> r \<and> r \<le> 0xFF \<and> r \<noteq> 0xD7 \<and> r \<noteq> 0xF7)),
      IsDigit = (\<lambda>r. False),
      ToTitleCase = (\<lambda>r. if r = 0xB5 then 0x39C
                         else if 0xE0 \<le> r \<and> r \<le> 0xFE \<and> r \<noteq> 0xF7 then r - 32
                         else if r = 0xFF then 0x178 else r)\<rparr>"

subsection \<open>Scalar escaping\<close>

definition dquote :: char where
  "dquote = CHR 0x22"

definition backslash :: char where
  "backslash = CHR 0x5C"

definition yamlSpecial :: string where
  \<comment> \<open>The second argument of \<^verbatim>\<open>strings.ContainsAny\<close> in \<^verbatim>\<open>escapeYAML\<close>.\<close>
  "yamlSpecial = '':#{}[]|>&*!?'' @ [CHR 0x27, dquote, backslash]"

definition escapeYAML :: "string \<Rightarrow> string" where
  "escapeYAML s =
     (if containsAny s yamlSpecial \<or> hasPrefix s ''-'' \<or> hasPrefix s ''@''
      then (let s1 = replaceAll s backslash [backslash, backslash];
                s2 = replaceAll s1 dquote [backslash, dquote]
            in [dquote] @ s2 @ [dquote])
      else s)"

definition escapeYAMLMultiline :: "string \<Rightarrow> string" where
  "escapeYAMLMultiline s = s"

text \<open>The rule as the specification words it.\<close>

definition spec_needs_quoting :: "string \<Rightarrow> bool" where
  \<comment> \<open>The string contains a character of the set, or starts with \<^verbatim>\<open>-\<close> or \<^verbatim>\<open>@\<close>.\<close>
  "spec_needs_quoting s =
     (list_ex (\<lambda>c. c \<in> set yamlSpecial) s \<or>
      (case s of [] \<Rightarrow> False | c # _ \<Rightarrow> c = CHR ''-'' \<or> c = CHR ''@''))"

definition spec_escape_char :: "char \<Rightarrow> string" where
  \<comment> \<open>A backslash and a double quote each get a backslash in front.\<close>
  "spec_escape_char c = (if c = backslash \<or> c = dquote then [backslash, c] else [c])"

definition spec_quoted :: "string \<Rightarrow> string" where
  \<comment> \<open>The string between double quotes, its characters escaped one by one.\<close>
  "spec_quoted s = [dquote] @ concat (map spec_escape_char s) @ [dquote]"

subsection \<open>Records\<close>

record query =
  Name :: string
  Description :: string
  Query :: string
  Platform :: string
  Tags :: "string list"
  Interval :: int
  Level :: int
  Category :: string
  Subcategory :: string

definition emptyQuery :: query where
  \<comment> \<open>The zero value \<^verbatim>\<open>Query{}\<close>.\<close>
  "emptyQuery = \<lparr>Name = [], Description = [], Query = [], Platform = [], Tags = [],
     Interval = 0, Level = 0, Category = [], Subcategory = []\<rparr>"

datatype error = OpenError | ScanError | CreateError string

subsection \<open>The regular expressions\<close>

definition newline :: char where
  "newline = CHR 0x0A"

definition reSpace :: "char \<Rightarrow> bool" where
  \<comment> \<open>The class \<^verbatim>\<open>\s\<close> of Go's regular expressions: tab, line feed, form feed, carriage
      return and space.\<close>
  "reSpace c = (c \<in> {CHR 0x09, CHR 0x0A, CHR 0x0C, CHR 0x0D, CHR 0x20})"

definition directiveRest :: "string \<Rightarrow> string \<Rightarrow> string option" where
  \<comment> \<open>The common beginning \<^verbatim>\<open>^--\s*key\<close> of the three header expressions: what follows
      the key, when the line begins so.\<close>
  "directiveRest key line =
     (if hasPrefix line ''--''
      then (let r = dropWhile reSpace (drop 2 line)
            in if hasPrefix r key then Some (drop (length key) r) else None)
      else None)"

definition captureText :: "string \<Rightarrow> string option" where
  \<comment> \<open>The end \<^verbatim>\<open>\s*(.+)$\<close>: the submatch. \<^verbatim>\<open>\s*\<close> takes all the white space it can and
      gives back one character when nothing else is left for \<^verbatim>\<open>.+\<close>, which matches no
      line feed.\<close>
  "captureText r =
     (let t = dropWhile reSpace r in
      if t \<noteq> [] then (if newline \<in> set t then None else Some t)
      else if r = [] \<or> last r = newline then None
      else Some [last r])"

definition captureDigits :: "string \<Rightarrow> string option" where
  \<comment> \<open>The end \<^verbatim>\<open>\s*(\d+)$\<close>: the submatch.\<close>
  "captureDigits r =
     (let t = dropWhile reSpace r in if t \<noteq> [] \<and> list_all isDigit t then Some t else None)"

definition tagsRegex :: "string \<Rightarrow> string option" where
  \<comment> \<open>\<^verbatim>\<open>^--\s*tags:\s*(.+)$\<close>: the first submatch of \<^verbatim>\<open>FindStringSubmatch\<close>, if the line
      matches.\<close>
  "tagsRegex line = (case directiveRest ''tags:'' line of None \<Rightarrow> None | Some r \<Rightarrow> captureText r)"

definition platformRegex :: "string \<Rightarrow> string option" where
  \<comment> \<open>\<^verbatim>\<open>^--\s*platform:\s*(.+)$\<close>\<close>
  "platformRegex line =
     (case directiveRest ''platform:'' line of None \<Rightarrow> None | Some r \<Rightarrow> captureText r)"

definition intervalRegex :: "string \<Rightarrow> string option" where
  \<comment> \<open>\<^verbatim>\<open>^--\s*interval:\s*(\d+)$\<close>\<close>
  "intervalRegex line =
     (case directiveRest ''interval:'' line of None \<Rightarrow> None | Some r \<Rightarrow> captureDigits r)"

definition levelRegex :: "string \<Rightarrow> (string \<times> string) option" where
  \<comment> \<open>\<^verbatim>\<open>^(\d)-(.+)\.sql$\<close>: the two submatches.\<close>
  "levelRegex filename =
     (case filename of
        d # m # rest \<Rightarrow>
          (let stem = take (length rest - 4) rest in
           if isDigit d \<and> m = CHR ''-'' \<and> hasSuffix rest ''.sql'' \<and> stem \<noteq> []
              \<and> newline \<notin> set stem
           then Some ([d], stem) else None)
      | _ \<Rightarrow> None)"

subsection \<open>The query extractor\<close>

definition normalizePlatform :: "string \<Rightarrow> string" where
  "normalizePlatform platform =
     (let p = toLower platform in
      if p = ''darwin'' \<or> p = ''macos'' then ''darwin''
      else if p = ''linux'' then ''linux''
      else if p = ''posix'' then ''darwin,linux''
      else if p = ''windows'' then ''windows''
      else [])"

definition generateName :: "unicode \<Rightarrow> string \<Rightarrow> string \<Rightarrow> string \<Rightarrow> string" where
  \<comment> \<open>\<open>U\<close> is the Unicode tables that \<^verbatim>\<open>strings.Title\<close> reads.\<close>
  "generateName U filename category subcategory =
     (let name = trimSuffix filename ''.sql'';
          name = replaceAll name (CHR ''-'') '' '';
          name = replaceAll name (CHR ''_'') '' '';
          name = title U name
      in if subcategory \<noteq> [] then ''['' @ category @ ''/'' @ subcategory @ ''] '' @ name
         else ''['' @ category @ ''] '' @ name)"

text \<open>
  The state of the loop of \<^verbatim>\<open>parseQuery\<close> over the lines of the file: the record under
  construction and the three local variables.
\<close>

record scan_state =
  q :: query
  sqlLines :: "string list"
  firstComment :: bool
  inHeader :: bool

definition collectSQL :: "scan_state \<Rightarrow> string \<Rightarrow> scan_state" where
  \<comment> \<open>The last statement of the loop body.\<close>
  "collectSQL st line =
     (if \<not> inHeader st \<or> \<not> hasPrefix line ''--''
      then st\<lparr>sqlLines := sqlLines st @ [line]\<rparr> else st)"

definition scanLine :: "scan_state \<Rightarrow> string \<Rightarrow> scan_state" where
  \<comment> \<open>One turn of the loop. A directive line ends the turn at once (\<^verbatim>\<open>continue\<close>).\<close>
  "scanLine st line =
     (if inHeader st \<and> hasPrefix line ''--'' then
        (let commentContent = trimSpace (trimPrefix line ''--'') in
         case tagsRegex line of
           Some m \<Rightarrow> st\<lparr>q := (q st)\<lparr>Tags := stringFields m\<rparr>\<rparr>
         | None \<Rightarrow>
         (case platformRegex line of
           Some m \<Rightarrow> st\<lparr>q := (q st)\<lparr>Platform := normalizePlatform (trimSpace m)\<rparr>\<rparr>
         | None \<Rightarrow>
         (case intervalRegex line of
           Some m \<Rightarrow> st\<lparr>q := (q st)\<lparr>Interval := sscanInt m (Interval (q st))\<rparr>\<rparr>
         | None \<Rightarrow>
           collectSQL
             (if firstComment st \<and> commentContent \<noteq> []
                 \<and> \<not> hasPrefix commentContent ''references:''
                 \<and> \<not> hasPrefix commentContent ''false positives:''
              then st\<lparr>q := (q st)\<lparr>Description := commentContent\<rparr>, firstComment := False\<rparr>
              else st)
             line)))
      else
        collectSQL
          (if trimSpace line \<noteq> [] \<and> \<not> hasPrefix line ''--'' then st\<lparr>inHeader := False\<rparr> else st)
          line)"

definition parseQuery ::
  "unicode \<Rightarrow> string list \<Rightarrow> string \<Rightarrow> string \<Rightarrow> (string list \<times> error option) option
     \<Rightarrow> query \<times> error option" where
  \<comment> \<open>\<^verbatim>\<open>parseQuery(path, category, categoryPath)\<close>. The path of the file relative to the
      directory of its category is given by its directories \<open>dirs\<close> and its base name
      \<open>base\<close>. The file is \<open>None\<close> when it cannot be opened, and otherwise the lines that
      \<^verbatim>\<open>bufio.Scanner\<close> delivers, in order, with the error the scanner ends with. \<open>U\<close> is
      the Unicode tables that name generation reads.\<close>
  "parseQuery U dirs base category file =
     (case file of
        None \<Rightarrow> (emptyQuery, Some OpenError)
      | Some (scanned, scanErr) \<Rightarrow>
         (let q0 = emptyQuery\<lparr>Category := category\<rparr>;
              q1 = (case dirs of [] \<Rightarrow> q0 | d # _ \<Rightarrow> q0\<lparr>Subcategory := d\<rparr>);
              (q2, filename) =
                 (case levelRegex base of
                    Some (lv, stem) \<Rightarrow> (q1\<lparr>Level := sscanInt lv (Level q1)\<rparr>, stem @ ''.sql'')
                  | None \<Rightarrow> (q1, base));
              q3 = q2\<lparr>Name := generateName U filename (Category q2) (Subcategory q2)\<rparr>;
              st = foldl scanLine
                     \<lparr>q = q3, sqlLines = [], firstComment = True, inHeader = True\<rparr> scanned;
              sql = dropWhile (\<lambda>l. trimSpace l = []) (sqlLines st);
              q4 = (q st)\<lparr>Query := trimSpace (join sql [newline])\<rparr>;
              q5 = (if Description q4 = [] then q4\<lparr>Description := Name q4\<rparr> else q4)
          in (q5, scanErr)))"

text \<open>
  A file that the walk of a category's directory finds: the directories and the base name
  of its path relative to that directory, and what \<^verbatim>\<open>parseQuery\<close> reads from it.
\<close>

type_synonym source_file = "string list \<times> string \<times> (string list \<times> error option) option"

definition parseCategory :: "unicode \<Rightarrow> string \<Rightarrow> source_file list \<Rightarrow> query list" where
  \<comment> \<open>The function that \<^verbatim>\<open>filepath.WalkDir\<close> calls, over the files of a category in the
      order of the walk (it passes over directories): a file whose name does not end in
      \<^verbatim>\<open>.sql\<close> is passed over, and a file that \<^verbatim>\<open>parseQuery\<close> fails on is left out with
      a warning.\<close>
  "parseCategory U category files =
     concat (map (\<lambda>(dirs, base, file).
                    if \<not> hasSuffix base ''.sql'' then []
                    else (case parseQuery U dirs base category file of
                            (query, None) \<Rightarrow> [query]
                          | (query, Some err) \<Rightarrow> []))
               files)"

fun parseCategories ::
  "unicode \<Rightarrow> (string \<Rightarrow> (error + source_file list) option) \<Rightarrow> query list \<Rightarrow> string list
     \<Rightarrow> error + query list" where
  \<comment> \<open>The loop over the categories. \<open>upstream category\<close> is \<open>None\<close> when the directory of
      the category does not exist, the error when the walk fails, and the files found
      otherwise.\<close>
  "parseCategories U upstream queries [] = Inr queries"
| "parseCategories U upstream queries (category # rest) =
     (case upstream category of
        None \<Rightarrow> parseCategories U upstream queries rest
      | Some (Inl err) \<Rightarrow> Inl err
      | Some (Inr files) \<Rightarrow>
          parseCategories U upstream (queries @ parseCategory U category files) rest)"

definition parseAllQueries ::
  "unicode \<Rightarrow> (string \<Rightarrow> (error + source_file list) option) \<Rightarrow> error + query list" where
  "parseAllQueries U upstream =
     parseCategories U upstream [] [''detection'', ''policy'', ''incident_response'']"

subsection \<open>The document writer\<close>

text \<open>
  A document is the sequence of strings written to it, one for each call of
  \<^verbatim>\<open>WriteString\<close>; its content is their concatenation. The program ignores the result of
  \<^verbatim>\<open>WriteString\<close>.
\<close>

type_synonym document = "string list"

definition writeString :: "document \<Rightarrow> string \<Rightarrow> document" where
  "writeString w s = w @ [s]"

definition contents :: "document \<Rightarrow> string" where
  "contents w = concat w"

definition writeQueryYAML :: "document \<Rightarrow> query \<Rightarrow> int \<Rightarrow> document" where
  "writeQueryYAML w0 qu intervalOverride =
     (let desc = escapeYAML (Description qu);
          query = escapeYAMLMultiline (Query qu);
          w = writeString w0 (''apiVersion: v1'' @ [newline]);
          w = writeString w (''kind: query'' @ [newline]);
          w = writeString w (''spec:'' @ [newline]);
          w = writeString w (''  name: '' @ escapeYAML (Name qu) @ [newline]);
          w = writeString w (''  description: '' @ desc @ [newline]);
          w = writeString w (''  query: |'' @ [newline]);
          w = foldl (\<lambda>w line. writeString w (''    '' @ line @ [newline])) w
                (splitOn query newline);
          w = (if Platform qu \<noteq> [] then writeString w (''  platform: '' @ Platform qu @ [newline])
               else w);
          interval = (if intervalOverride > 0 then intervalOverride else Interval qu);
          w = (if interval > 0 then writeString w (''  interval: '' @ formatInt interval @ [newline])
               else w)
      in if Category qu = ''detection'' \<or> Category qu = ''policy''
         then writeString w (''  logging: differential'' @ [newline])
         else writeString w (''  logging: snapshot'' @ [newline]))"

fun writeQueries :: "document \<Rightarrow> nat \<Rightarrow> query list \<Rightarrow> int \<Rightarrow> document" where
  \<comment> \<open>The loop \<^verbatim>\<open>for i, q := range queries\<close> that fills a document, from index \<open>i\<close> on.\<close>
  "writeQueries w i [] intervalOverride = w"
| "writeQueries w i (qu # qs) intervalOverride =
     writeQueries
       (writeQueryYAML (if i > 0 then writeString w (''---'' @ [newline]) else w) qu intervalOverride)
       (Suc i) qs intervalOverride"

text \<open>
  The output directory maps the names of its files to their documents. \<^verbatim>\<open>os.Create\<close>
  empties or creates a file; \<open>creatable\<close> tells for which names it succeeds.
\<close>

type_synonym filesystem = "string \<rightharpoonup> document"

definition initialGroups :: "string \<rightharpoonup> query list" where
  "initialGroups = [''detection'' \<mapsto> [], ''policy'' \<mapsto> [], ''incident_response'' \<mapsto> []]"

definition groupQueries :: "query list \<Rightarrow> (string \<rightharpoonup> query list)" where
  \<comment> \<open>The map \<^verbatim>\<open>groups\<close> after the first loop of \<^verbatim>\<open>writeFleetYAML\<close>.\<close>
  "groupQueries queries =
     foldl (\<lambda>groups qu.
              groups(Category qu \<mapsto> (case groups (Category qu) of None \<Rightarrow> [] | Some g \<Rightarrow> g) @ [qu]))
       initialGroups queries"

definition categoryFile :: "string \<Rightarrow> string" where
  "categoryFile category = ''chainguard-'' @ replaceAll category (CHR ''_'') ''-'' @ ''.yml''"

fun writeCategories ::
  "(string \<Rightarrow> bool) \<Rightarrow> (string \<rightharpoonup> query list) \<Rightarrow> filesystem \<Rightarrow> string list
     \<Rightarrow> filesystem \<times> error option" where
  \<comment> \<open>The loop \<^verbatim>\<open>for category, categoryQueries := range groups\<close>, over the keys in the
      order the loop visits them; a key that the map lacks is not visited.\<close>
  "writeCategories creatable groups fs [] = (fs, None)"
| "writeCategories creatable groups fs (category # rest) =
     (case groups category of
        None \<Rightarrow> writeCategories creatable groups fs rest
      | Some categoryQueries \<Rightarrow>
          if categoryQueries = [] then writeCategories creatable groups fs rest
          else if \<not> creatable (categoryFile category)
          then (fs, Some (CreateError (categoryFile category)))
          else writeCategories creatable groups
                 (fs(categoryFile category \<mapsto> writeQueries [] 0 categoryQueries 0)) rest)"

definition writeFleetYAML ::
  "string list \<Rightarrow> (string \<Rightarrow> bool) \<Rightarrow> filesystem \<Rightarrow> query list \<Rightarrow> filesystem \<times> error option" where
  \<comment> \<open>\<^verbatim>\<open>writeFleetYAML(queries, outputDir)\<close> on the files of the output directory. Go
      leaves the order in which \<^verbatim>\<open>range\<close> visits the keys of a map open: \<open>visit\<close> is
      that order. The result is the directory afterwards and the error returned.\<close>
  "writeFleetYAML visit creatable fs0 queries =
     (let groups = groupQueries queries in
      case writeCategories creatable groups fs0 visit of
        (fs, Some err) \<Rightarrow> (fs, Some err)
      | (fs1, None) \<Rightarrow>
         (let detectionQueries = (case groups ''detection'' of None \<Rightarrow> [] | Some g \<Rightarrow> g);
              scheduled =
                (if detectionQueries \<noteq> [] then
                   (if \<not> creatable ''chainguard-detection-5min.yml''
                    then (fs1, Some (CreateError ''chainguard-detection-5min.yml''))
                    else (fs1(''chainguard-detection-5min.yml''
                              \<mapsto> writeQueries [] 0 detectionQueries 300), None))
                 else (fs1, None))
          in case scheduled of
               (fs, Some err) \<Rightarrow> (fs, Some err)
             | (fs2, None) \<Rightarrow>
                 if \<not> creatable ''chainguard-all.yml''
                 then (fs2, Some (CreateError ''chainguard-all.yml''))
                 else (fs2(''chainguard-all.yml'' \<mapsto> writeQueries [] 0 queries 0), None)))"

definition rangeOrder :: "query list \<Rightarrow> string list \<Rightarrow> bool" where
  \<comment> \<open>An order in which \<^verbatim>\<open>range groups\<close> can visit the keys: each key once.\<close>
  "rangeOrder queries visit = (distinct visit \<and> set visit = dom (groupQueries queries))"

subsection \<open>Notions of the specification\<close>

definition emitsField :: "document \<Rightarrow> string \<Rightarrow> bool" where
  \<comment> \<open>A field is emitted: one of the strings written starts with its key.\<close>
  "emitsField w key = list_ex (\<lambda>chunk. hasPrefix chunk key) w"

definition isASCII :: "char \<Rightarrow> bool" where
  \<comment> \<open>A byte of ASCII: a character of one byte.\<close>
  "isASCII c = ((of_char c :: nat) < 128)"

definition spec_word_char :: "char \<Rightarrow> bool" where
  \<comment> \<open>A letter or a digit of ASCII.\<close>
  "spec_word_char c =
     (let n = (of_char c :: nat) in
      (48 \<le> n \<and> n \<le> 57) \<or> (65 \<le> n \<and> n \<le> 90) \<or> (97 \<le> n \<and> n \<le> 122))"

definition spec_plain_char :: "char \<Rightarrow> bool" where
  \<comment> \<open>A letter or a digit of ASCII, a hyphen, an underscore or a space.\<close>
  "spec_plain_char c =
     (let n = (of_char c :: nat) in
      (48 \<le> n \<and> n \<le> 57) \<or> (65 \<le> n \<and> n \<le> 90) \<or> (97 \<le> n \<and> n \<le> 122)
      \<or> c = CHR ''-'' \<or> c = CHR ''_'' \<or> c = CHR '' '')"

definition spec_spaced :: "string \<Rightarrow> string" where
  \<comment> \<open>Every hyphen and every underscore replaced by a space.\<close>
  "spec_spaced s = map (\<lambda>c. if c = CHR ''-'' \<or> c = CHR ''_'' then CHR '' '' else c) s"

definition spec_titleCase :: "unicode \<Rightarrow> string \<Rightarrow> string" where
  \<comment> \<open>A word in title case: of its characters, the first and every one that follows a
      separator are mapped to their title case, the others are kept.\<close>
  "spec_titleCase U w =
     (let rs = runes w in
      concat (map (\<lambda>i. writeRune (if i = 0 \<or> isSeparator U (rs ! (i - 1)) then toTitle U (rs ! i)
                                  else rs ! i))
                [0..<length rs]))"

definition spec_prefix :: "string \<Rightarrow> string \<Rightarrow> string" where
  \<comment> \<open>The category in brackets, with the subcategory when there is one, and a space.\<close>
  "spec_prefix category subcategory =
     (if subcategory = [] then ''['' @ category @ ''] ''
      else ''['' @ category @ ''/'' @ subcategory @ ''] '')"

definition spec_stem :: "string \<Rightarrow> string" where
  \<comment> \<open>The file name without the suffix \<^verbatim>\<open>.sql\<close>.\<close>
  "spec_stem filename =
     (if hasSuffix filename ''.sql'' then take (length filename - 4) filename else filename)"

definition spec_generateName :: "unicode \<Rightarrow> string \<Rightarrow> string \<Rightarrow> string \<Rightarrow> string" where
  \<comment> \<open>Strip the suffix, replace hyphens and underscores by spaces, title-case each word,
      and put the category, or category and subcategory, in brackets in front.\<close>
  "spec_generateName U filename category subcategory =
     spec_prefix category subcategory
     @ join (map (spec_titleCase U) (splitOn (spec_spaced (spec_stem filename)) (CHR '' ''))) '' ''"

definition spec_capitalize :: "string \<Rightarrow> string" where
  \<comment> \<open>A word with its first letter in upper case.\<close>
  "spec_capitalize w = (case w of [] \<Rightarrow> [] | c # cs \<Rightarrow> upperByte c # cs)"

definition spec_plainName :: "string \<Rightarrow> string \<Rightarrow> string \<Rightarrow> string" where
  \<comment> \<open>The name of a file whose stem has none but plain characters: the first letter of
      each word in upper case.\<close>
  "spec_plainName filename category subcategory =
     spec_prefix category subcategory
     @ join (map spec_capitalize (splitOn (spec_spaced (spec_stem filename)) (CHR '' ''))) '' ''"

definition categories :: "string list" where
  \<comment> \<open>The three categories the extractor visits (\<^verbatim>\<open>parseAllQueries\<close>); the category of every
      record it produces is one of them.\<close>
  "categories = [''detection'', ''policy'', ''incident_response'']"

definition inCategory :: "string \<Rightarrow> query list \<Rightarrow> query list" where
  \<comment> \<open>The records of a category, in their original order.\<close>
  "inCategory c queries = filter (\<lambda>qu. Category qu = c) queries"

definition spec_resolved_interval :: "query \<Rightarrow> int \<Rightarrow> int" where
  \<comment> \<open>The override if one is given (it is positive), the record's own interval otherwise.\<close>
  "spec_resolved_interval qu ov = (if 0 < ov then ov else Interval qu)"

definition spec_scalar :: "string \<Rightarrow> string" where
  \<comment> \<open>A scalar passed through the scalar-escaping rule.\<close>
  "spec_scalar s = (if spec_needs_quoting s then spec_quoted s else s)"

definition spec_record :: "query \<Rightarrow> int \<Rightarrow> document" where
  \<comment> \<open>The serialization of a record, line by line: the envelope of \<^verbatim>\<open>apiVersion\<close>,
      \<^verbatim>\<open>kind\<close> and \<^verbatim>\<open>spec\<close>; name and description, escaped; the query as a literal block,
      each of its lines behind a margin of four spaces; the platform if there is one; the
      resolved interval if it is positive; the logging mode.\<close>
  "spec_record qu ov =
     [''apiVersion: v1'' @ [newline], ''kind: query'' @ [newline], ''spec:'' @ [newline],
      ''  name: '' @ spec_scalar (Name qu) @ [newline],
      ''  description: '' @ spec_scalar (Description qu) @ [newline],
      ''  query: |'' @ [newline]]
     @ map (\<lambda>line. ''    '' @ line @ [newline]) (splitOn (Query qu) newline)
     @ (if Platform qu \<noteq> [] then [''  platform: '' @ Platform qu @ [newline]] else [])
     @ (if 0 < spec_resolved_interval qu ov
        then [''  interval: '' @ formatInt (spec_resolved_interval qu ov) @ [newline]] else [])
     @ [''  logging: ''
        @ (if Category qu = ''detection'' \<or> Category qu = ''policy'' then ''differential''
           else ''snapshot'')
        @ [newline]]"

definition spec_document :: "query list \<Rightarrow> int \<Rightarrow> document" where
  \<comment> \<open>The records serialized one after the other, a boundary line before each but the
      first.\<close>
  "spec_document rs ov =
     (case rs of
        [] \<Rightarrow> []
      | r # rest \<Rightarrow>
          spec_record r ov @ concat (map (\<lambda>qu. (''---'' @ [newline]) # spec_record qu ov) rest))"

definition nonEmptyGroup :: "(string \<rightharpoonup> query list) \<Rightarrow> string \<Rightarrow> bool" where
  \<comment> \<open>The category is a key of the map and its group has records.\<close>
  "nonEmptyGroup g c = (case g c of None \<Rightarrow> False | Some rs \<Rightarrow> rs \<noteq> [])"

definition spec_output :: "filesystem \<Rightarrow> query list \<Rightarrow> filesystem" where
  \<comment> \<open>The output directory after a run, as the specification lists the documents: one for
      each category that has records, the detection records once more with the interval
      300, and all records combined.\<close>
  "spec_output fs0 queries =
     (let det = inCategory ''detection'' queries;
          pol = inCategory ''policy'' queries;
          inc = inCategory ''incident_response'' queries;
          fs = (if det \<noteq> [] then fs0(''chainguard-detection.yml'' \<mapsto> spec_document det 0)
                else fs0);
          fs = (if pol \<noteq> [] then fs(''chainguard-policy.yml'' \<mapsto> spec_document pol 0) else fs);
          fs = (if inc \<noteq> [] then fs(''chainguard-incident-response.yml'' \<mapsto> spec_document inc 0)
                else fs);
          fs = (if det \<noteq> []
                then fs(''chainguard-detection-5min.yml''
                        \<mapsto> spec_document (map (\<lambda>qu. qu\<lparr>Interval := 300\<rparr>) det) 0)
                else fs)
      in fs(''chainguard-all.yml'' \<mapsto> spec_document queries 0))"

subsection \<open>Example records\<close>

definition exampleDetection :: query where
  "exampleDetection = emptyQuery\<lparr>Name := ''[detection/execution] Unusual Child'',
     Description := ''Detected: suspicious activity'', Query := ''SELECT 1;'', Level := 2,
     Category := ''detection'', Subcategory := ''execution''\<rparr>"

definition exampleResponse :: query where
  "exampleResponse = emptyQuery\<lparr>Name := ''[incident_response] Crontab'',
     Description := ''Suspicious login'', Query := ''SELECT 2;'', Interval := 60,
     Category := ''incident_response''\<rparr>"

definition exampleQueries :: "query list" where
  "exampleQueries = [exampleDetection, exampleResponse]"

subsection \<open>Lines of a file\<close>

definition isComment :: "string \<Rightarrow> bool" where
  \<comment> \<open>A comment line: it starts with the comment marker.\<close>
  "isComment line = hasPrefix line ''--''"

definition isBlank :: "string \<Rightarrow> bool" where
  \<comment> \<open>A blank line: nothing but white space.\<close>
  "isBlank line = (trimSpace line = [])"

definition headerLines :: "string list \<Rightarrow> string list" where
  \<comment> \<open>The header: the lines before the first line that is neither blank nor a comment.\<close>
  "headerLines ls = takeWhile (\<lambda>l. isComment l \<or> isBlank l) ls"

definition queryLines :: "string list \<Rightarrow> string list" where
  \<comment> \<open>The lines from the first line on that is neither blank nor a comment.\<close>
  "queryLines ls = dropWhile (\<lambda>l. isComment l \<or> isBlank l) ls"

definition commentContent :: "string \<Rightarrow> string" where
  \<comment> \<open>A comment line without its marker and the white space around the rest.\<close>
  "commentContent line = trimSpace (trimPrefix line ''--'')"

definition isDirective :: "string \<Rightarrow> bool" where
  \<comment> \<open>The line matches one of the three directive expressions.\<close>
  "isDirective line =
     (tagsRegex line \<noteq> None \<or> platformRegex line \<noteq> None \<or> intervalRegex line \<noteq> None)"

definition spec_description_candidate :: "string \<Rightarrow> bool" where
  \<comment> \<open>A comment line that is non-empty after stripping the marker, is not a directive,
      and does not begin with \<^verbatim>\<open>references:\<close> or \<^verbatim>\<open>false positives:\<close>.\<close>
  "spec_description_candidate line =
     (isComment line \<and> commentContent line \<noteq> [] \<and> \<not> isDirective line
      \<and> \<not> hasPrefix (commentContent line) ''references:''
      \<and> \<not> hasPrefix (commentContent line) ''false positives:'')"

definition scanStart :: "query \<Rightarrow> scan_state" where
  \<comment> \<open>The state in which the loop starts.\<close>
  "scanStart q0 = \<lparr>q = q0, sqlLines = [], firstComment = True, inHeader = True\<rparr>"

definition recordBeforeScan :: "unicode \<Rightarrow> string list \<Rightarrow> string \<Rightarrow> string \<Rightarrow> query" where
  \<comment> \<open>The record when the loop starts: category, subcategory, level and name are set.\<close>
  "recordBeforeScan U dirs base category =
     emptyQuery\<lparr>Name := generateName U
                           (case levelRegex base of Some (lv, stem) \<Rightarrow> stem @ ''.sql'' | None \<Rightarrow> base)
                           category (case dirs of [] \<Rightarrow> [] | d # _ \<Rightarrow> d),
                 Level := (case levelRegex base of Some (lv, stem) \<Rightarrow> sscanInt lv 0 | None \<Rightarrow> 0),
                 Category := category,
                 Subcategory := (case dirs of [] \<Rightarrow> [] | d # _ \<Rightarrow> d)\<rparr>"

fun spec_claimed_lines :: "bool \<Rightarrow> bool \<Rightarrow> string list \<Rightarrow> string list" where
  \<comment> \<open>The lines that claim C1 says are appended to the body: every line but a comment
      line in header mode that is consumed as a directive or as the description. \<open>h\<close> is
      the header mode, \<open>f\<close> tells that the description is still to come.\<close>
  "spec_claimed_lines h f [] = []"
| "spec_claimed_lines h f (l # ls) =
     (if h \<and> isComment l then
        (if isDirective l then spec_claimed_lines h f ls
         else if f \<and> spec_description_candidate l then spec_claimed_lines h False ls
         else l # spec_claimed_lines h f ls)
      else l # spec_claimed_lines (h \<and> isBlank l) f ls)"

definition spec_claimed_body :: "string list \<Rightarrow> string" where
  \<comment> \<open>The body that claim C1 describes.\<close>
  "spec_claimed_body ls =
     trimSpace (join (dropWhile isBlank (spec_claimed_lines True True ls)) [newline])"

definition exampleFile :: "string list" where
  "exampleFile =
     [''-- Unusual child process'', ''--'', ''-- references:'', ''--   * https://example.com/'',
      ''-- tags: mitre ta0002'', '''', ''SELECT 1 -- first'', ''-- tags: later'', ''FROM t;'', '''']"

subsection \<open>Header blocks\<close>

text \<open>The directive lines and the description line of a header, with the values written into them.\<close>

datatype spec_directive =
    DescriptionLine string
  | TagsLine "string list"
  | PlatformLine string
  | IntervalLine int

fun spec_render :: "spec_directive \<Rightarrow> string" where
  \<comment> \<open>A header line of a synthetic file, as the input convention writes it.\<close>
  "spec_render (DescriptionLine d) = ''-- '' @ d"
| "spec_render (TagsLine ts) = ''-- tags: '' @ join ts '' ''"
| "spec_render (PlatformLine p) = ''-- platform: '' @ p"
| "spec_render (IntervalLine n) = ''-- interval: '' @ formatInt n"

fun spec_no_space :: "string \<Rightarrow> bool" where
  \<comment> \<open>No white-space character begins anywhere in the string.\<close>
  "spec_no_space [] = True"
| "spec_no_space (c # cs) = (spaceWidth (c # cs) = 0 \<and> spec_no_space cs)"

definition spec_token :: "string \<Rightarrow> bool" where
  \<comment> \<open>A token: not empty, without white space.\<close>
  "spec_token t = (t \<noteq> [] \<and> spec_no_space t)"

fun spec_valid :: "spec_directive \<Rightarrow> bool" where
  \<comment> \<open>What a valid header line holds: a description that is free text (not empty, one line,
      no white space at its ends, not beginning like a directive or like a line that is
      skipped), tags and a platform that are tokens, an interval that an \<^verbatim>\<open>int\<close> holds.\<close>
  "spec_valid (DescriptionLine d) =
     (d \<noteq> [] \<and> newline \<notin> set d \<and> spaceWidth d = 0 \<and> lastSpaceWidth d = 0
      \<and> \<not> hasPrefix d ''tags:'' \<and> \<not> hasPrefix d ''platform:'' \<and> \<not> hasPrefix d ''interval:''
      \<and> \<not> hasPrefix d ''references:'' \<and> \<not> hasPrefix d ''false positives:'')"
| "spec_valid (TagsLine ts) = list_all spec_token ts"
| "spec_valid (PlatformLine p) = spec_token p"
| "spec_valid (IntervalLine n) = (0 \<le> n \<and> n \<le> maxInt)"

fun headerEffect :: "scan_state \<Rightarrow> spec_directive \<Rightarrow> scan_state" where
  \<comment> \<open>What a valid header line does to the state of the loop.\<close>
  "headerEffect st (DescriptionLine d) =
     (if firstComment st then st\<lparr>q := (q st)\<lparr>Description := d\<rparr>, firstComment := False\<rparr> else st)"
| "headerEffect st (TagsLine ts) = st\<lparr>q := (q st)\<lparr>Tags := ts\<rparr>\<rparr>"
| "headerEffect st (PlatformLine p) = st\<lparr>q := (q st)\<lparr>Platform := normalizePlatform p\<rparr>\<rparr>"
| "headerEffect st (IntervalLine n) = st\<lparr>q := (q st)\<lparr>Interval := n\<rparr>\<rparr>"

definition exampleHeader :: "spec_directive list" where
  "exampleHeader =
     [TagsLine [''mitre'', ''ta0002''], DescriptionLine ''Unusual child process'',
      IntervalLine 60, PlatformLine ''posix'']"

section \<open>Properties\<close>

subsection \<open>The scalar-escaping rule\<close>

lemma hasPrefix_single: "hasPrefix s [c] = (case s of [] \<Rightarrow> False | x # _ \<Rightarrow> x = c)"
  by (cases s) (simp_all add: hasPrefix_def)

lemma replaceAll_twice_escape:
  "replaceAll (replaceAll s backslash [backslash, backslash]) dquote [backslash, dquote]
     = concat (map spec_escape_char s)"
  by (induction s) (auto simp: replaceAll_def spec_escape_char_def backslash_def dquote_def)

lemma escapeYAML_needs: "escapeYAML s = (if spec_needs_quoting s then spec_quoted s else s)"
  by (simp add: escapeYAML_def spec_needs_quoting_def spec_quoted_def containsAny_def
      hasPrefix_single replaceAll_twice_escape split: list.splits)

lemma spec_quoted_neq: "spec_quoted s \<noteq> s"
proof -
  have "length s \<le> length (concat (map spec_escape_char s))"
    by (induction s) (auto simp: spec_escape_char_def)
  then have "length s < length (spec_quoted s)"
    by (simp add: spec_quoted_def)
  then show ?thesis by auto
qed

text \<open>
  C4. For every string \<open>s\<close>, \<open>escapeYAML s\<close> is \<open>s\<close> between double quotes, with every
  backslash and every double quote of \<open>s\<close> escaped by a backslash, if and only if \<open>s\<close>
  contains one of the characters \<^verbatim>\<open>:#{}[]|>&*!?\<close>, a single quote, a double quote or a
  backslash (the list \<open>yamlSpecial\<close>), or starts with \<^verbatim>\<open>-\<close> or \<^verbatim>\<open>@\<close>;
  otherwise it is \<open>s\<close> itself. The description \<^verbatim>\<open>Detected: suspicious activity\<close> is quoted
  and \<^verbatim>\<open>Suspicious login\<close> is not.
\<close>

theorem escapeYAML_quotes_iff_special:
  "escapeYAML s = (if spec_needs_quoting s then spec_quoted s else s)
   \<and> (escapeYAML s = spec_quoted s) = spec_needs_quoting s
   \<and> (escapeYAML s = s) = (\<not> spec_needs_quoting s)
   \<and> escapeYAML ''Detected: suspicious activity''
       = [dquote] @ ''Detected: suspicious activity'' @ [dquote]
   \<and> escapeYAML ''Suspicious login'' = ''Suspicious login''"
proof -
  have ex1: "escapeYAML ''Detected: suspicious activity''
       = [dquote] @ ''Detected: suspicious activity'' @ [dquote]"
    by (simp add: escapeYAML_def containsAny_def yamlSpecial_def hasPrefix_def replaceAll_def
        dquote_def backslash_def)
  have ex2: "escapeYAML ''Suspicious login'' = ''Suspicious login''"
    by (simp add: escapeYAML_def containsAny_def yamlSpecial_def hasPrefix_def replaceAll_def
        dquote_def backslash_def)
  show ?thesis
    using spec_quoted_neq [of s] ex1 ex2 by (auto simp: escapeYAML_needs)
qed

theorem escapeYAML_quotes_iff_special_witness:
  "escapeYAML (''say '' @ [dquote] @ ''hi'' @ [dquote])
     = [dquote] @ ''say '' @ [backslash, dquote] @ ''hi'' @ [backslash, dquote] @ [dquote]
   \<and> escapeYAML ''-x'' = [dquote] @ ''-x'' @ [dquote]
   \<and> escapeYAML ''plain text'' = ''plain text''"
proof -
  have a: "spec_needs_quoting (''say '' @ [dquote] @ ''hi'' @ [dquote])"
    by (simp add: spec_needs_quoting_def yamlSpecial_def dquote_def backslash_def)
  have b: "spec_needs_quoting ''-x''"
    by (simp add: spec_needs_quoting_def)
  have c: "\<not> spec_needs_quoting ''plain text''"
    by (simp add: spec_needs_quoting_def yamlSpecial_def dquote_def backslash_def)
  show ?thesis
    using escapeYAML_quotes_iff_special [of "''say '' @ [dquote] @ ''hi'' @ [dquote]"]
      escapeYAML_quotes_iff_special [of "''-x''"]
      escapeYAML_quotes_iff_special [of "''plain text''"] a b c
    by (simp add: spec_quoted_def spec_escape_char_def dquote_def backslash_def)
qed

subsection \<open>Platform normalization\<close>

lemma upperByte_high: "128 \<le> (of_char c :: nat) \<Longrightarrow> upperByte c = c"
  by (simp add: upperByte_def)

lemma lowerByte_upperByte: "lowerByte (upperByte c) = lowerByte c"
  by (auto simp: lowerByte_def upperByte_def Let_def)

lemma lowerByte_idem: "lowerByte (lowerByte c) = lowerByte c"
  by (auto simp: lowerByte_def Let_def)

lemma upperByte_eq_high: "128 \<le> (of_char x :: nat) \<Longrightarrow> (upperByte c = x) = (c = x)"
  by (auto simp: upperByte_def Let_def)

lemma lowerByte_eq_high: "128 \<le> (of_char x :: nat) \<Longrightarrow> (lowerByte c = x) = (c = x)"
  by (auto simp: lowerByte_def Let_def)

lemma toLower_map_upperByte: "toLower (map upperByte p) = toLower p"
proof (induction p rule: toLower.induct)
  case 1
  then show ?case by simp
next
  case (2 c cs)
  have t1: "(take (Suc 0) (map upperByte cs) = [CHR 0xB0]) = (take (Suc 0) cs = [CHR 0xB0])"
    by (cases cs) (simp_all add: upperByte_eq_high)
  have t2: "(take 2 (map upperByte cs) = [CHR 0x84, CHR 0xAA]) = (take 2 cs = [CHR 0x84, CHR 0xAA])"
    by (cases cs; cases "tl cs") (auto simp: upperByte_eq_high)
  show ?case using 2 by (simp add: upperByte_eq_high t1 t2 drop_map lowerByte_upperByte)
qed

lemma toLower_map_lowerByte: "toLower (map lowerByte p) = toLower p"
proof (induction p rule: toLower.induct)
  case 1
  then show ?case by simp
next
  case (2 c cs)
  have t1: "(take (Suc 0) (map lowerByte cs) = [CHR 0xB0]) = (take (Suc 0) cs = [CHR 0xB0])"
    by (cases cs) (simp_all add: lowerByte_eq_high)
  have t2: "(take 2 (map lowerByte cs) = [CHR 0x84, CHR 0xAA]) = (take 2 cs = [CHR 0x84, CHR 0xAA])"
    by (cases cs; cases "tl cs") (auto simp: lowerByte_eq_high)
  show ?case using 2 by (simp add: lowerByte_eq_high t1 t2 drop_map lowerByte_idem)
qed

lemma foldl_writeString:
  "foldl (\<lambda>w line. w @ [f line]) w ls = w @ map f ls"
  by (induction ls arbitrary: w) simp_all

lemma writeQueryYAML_chunks:
  "writeQueryYAML w0 qu ov =
     w0 @ [''apiVersion: v1'' @ [newline], ''kind: query'' @ [newline], ''spec:'' @ [newline],
           ''  name: '' @ escapeYAML (Name qu) @ [newline],
           ''  description: '' @ escapeYAML (Description qu) @ [newline],
           ''  query: |'' @ [newline]]
        @ map (\<lambda>line. ''    '' @ line @ [newline]) (splitOn (Query qu) newline)
        @ (if Platform qu \<noteq> [] then [''  platform: '' @ Platform qu @ [newline]] else [])
        @ (if 0 < (if 0 < ov then ov else Interval qu)
           then [''  interval: '' @ formatInt (if 0 < ov then ov else Interval qu) @ [newline]] else [])
        @ [if Category qu = ''detection'' \<or> Category qu = ''policy''
           then ''  logging: differential'' @ [newline] else ''  logging: snapshot'' @ [newline]]"
  by (simp add: writeQueryYAML_def Let_def foldl_writeString writeString_def escapeYAMLMultiline_def)

lemma query_line_no_field:
  "c \<noteq> CHR '' '' \<Longrightarrow>
   \<not> hasPrefix (''    '' @ line @ [newline]) (CHR '' '' # CHR '' '' # c # rest)"
  by (simp add: hasPrefix_def)

lemma no_field_in_query_lines:
  "c \<noteq> CHR '' '' \<Longrightarrow>
   \<not> list_ex (\<lambda>chunk. hasPrefix chunk (CHR '' '' # CHR '' '' # c # rest))
       (map (\<lambda>line. ''    '' @ line @ [newline]) ls)"
  by (induction ls) (simp_all add: query_line_no_field del: append.simps)

lemma emits_platform: "emitsField (writeQueryYAML [] qu ov) ''  platform:'' = (Platform qu \<noteq> [])"
  using no_field_in_query_lines [of "CHR ''p''" "''latform:''" "splitOn (Query qu) newline"]
  by (simp add: writeQueryYAML_chunks emitsField_def hasPrefix_def)

text \<open>
  C5. Normalization looks only at the lower-cased token, so it does not depend on the case
  of the token's letters: a token that lowers to \<^verbatim>\<open>darwin\<close> or \<^verbatim>\<open>macos\<close> gives
  \<^verbatim>\<open>darwin\<close>, \<^verbatim>\<open>linux\<close> gives \<^verbatim>\<open>linux\<close>, \<^verbatim>\<open>posix\<close> gives \<^verbatim>\<open>darwin,linux\<close>,
  \<^verbatim>\<open>windows\<close> gives \<^verbatim>\<open>windows\<close>, and every other token gives the empty string. A record
  with the normalized platform gets a platform line in its output exactly when that
  platform is not empty.
\<close>

theorem normalizePlatform_table:
  "normalizePlatform p =
     (if toLower p = ''darwin'' \<or> toLower p = ''macos'' then ''darwin''
      else if toLower p = ''linux'' then ''linux''
      else if toLower p = ''posix'' then ''darwin,linux''
      else if toLower p = ''windows'' then ''windows''
      else [])
   \<and> normalizePlatform (map upperByte p) = normalizePlatform p
   \<and> normalizePlatform (map lowerByte p) = normalizePlatform p
   \<and> emitsField (writeQueryYAML [] (qu\<lparr>Platform := normalizePlatform p\<rparr>) ov) ''  platform:''
       = (normalizePlatform p \<noteq> [])"
  by (simp add: normalizePlatform_def Let_def toLower_map_upperByte toLower_map_lowerByte emits_platform)

theorem normalizePlatform_table_witness:
  "normalizePlatform ''POSIX'' = ''darwin,linux'' \<and> normalizePlatform ''MacOS'' = ''darwin''
   \<and> normalizePlatform ''amiga'' = []
   \<and> \<not> emitsField (writeQueryYAML [] (emptyQuery\<lparr>Platform := normalizePlatform ''amiga''\<rparr>) 0)
         ''  platform:''"
proof -
  have l: "toLower ''POSIX'' = ''posix''" "toLower ''MacOS'' = ''macos''"
    "toLower ''amiga'' = ''amiga''"
    by code_simp+
  have a: "normalizePlatform ''POSIX'' = ''darwin,linux''"
    by (subst normalizePlatform_table [THEN conjunct1]) (simp only: l, simp)
  have b: "normalizePlatform ''MacOS'' = ''darwin''"
    by (subst normalizePlatform_table [THEN conjunct1]) (simp only: l, simp)
  have c: "normalizePlatform ''amiga'' = []"
    by (subst normalizePlatform_table [THEN conjunct1]) (simp only: l, simp)
  have d: "emitsField (writeQueryYAML [] (emptyQuery\<lparr>Platform := normalizePlatform ''amiga''\<rparr>) 0)
         ''  platform:'' = (normalizePlatform ''amiga'' \<noteq> [])"
    using normalizePlatform_table [of "''amiga''" emptyQuery 0] by blast
  show ?thesis
    using a b c d by simp
qed

subsection \<open>Name generation\<close>

lemma join_Cons: "join (x # xs) sep = x @ concat (map (\<lambda>y. sep @ y) xs)"
  by (induction xs arbitrary: x) simp_all

lemma splitOn_not_Nil: "splitOn s sep \<noteq> []"
  by (induction s) (auto split: list.splits)

lemma replaceAll_char: "replaceAll s old [new] = map (\<lambda>c. if c = old then new else c) s"
  by (induction s) (simp_all add: replaceAll_def)

lemma replace_both_spaced:
  "replaceAll (replaceAll s (CHR ''-'') '' '') (CHR ''_'') '' '' = spec_spaced s"
  by (simp add: replaceAll_char spec_spaced_def)

lemma trimSuffix_sql: "trimSuffix filename ''.sql'' = spec_stem filename"
  by (simp add: trimSuffix_def spec_stem_def numeral_eq_Suc)

lemma generateName_eq:
  "generateName U filename category subcategory =
     spec_prefix category subcategory @ title U (spec_spaced (spec_stem filename))"
  by (simp add: generateName_def Let_def replace_both_spaced trimSuffix_sql spec_prefix_def)

text \<open>The runes of a string that has a character of ASCII in it.\<close>

lemma byteAt_Cons0: "byteAt (c # v) 0 = of_char c"
  by (simp add: byteAt_def)

lemma byteAt_Cons_Suc: "byteAt (c # v) (Suc n) = byteAt v n"
  by (simp add: byteAt_def)

lemmas byteAt_simps = byteAt_Cons0 byteAt_Cons_Suc eval_nat_numeral

lemma decodeRune_ascii: "(of_char c :: int) < 0x80 \<Longrightarrow> decodeRune (c # v) = (of_char c, 1)"
  by (simp add: decodeRune_def byteAt_def)

lemma decodeRune_append_ascii:
  assumes "u \<noteq> []" and "(of_char c :: int) < 0x80"
  shows "decodeRune (u @ c # v) = decodeRune u"
proof -
  have "0 < length u" using assms(1) by simp
  then consider "length u = 1" | "length u = 2" | "length u = 3" | "4 \<le> length u"
    by atomize_elim arith
  then show ?thesis
  proof cases
    case 1
    then obtain a where "u = [a]"
      by (cases u) auto
    with assms(2) show ?thesis
      by (simp add: decodeRune_def Let_def byteAt_simps)
  next
    case 2
    then obtain a b where "u = [a, b]"
      by (cases u; cases "tl u") auto
    with assms(2) show ?thesis
      by (simp add: decodeRune_def Let_def byteAt_simps)
  next
    case 3
    then obtain a b d where "u = [a, b, d]"
      by (cases u; cases "tl u"; cases "tl (tl u)") auto
    with assms(2) show ?thesis
      by (simp add: decodeRune_def Let_def byteAt_simps)
  next
    case 4
    then obtain a b d e w where "u = a # b # d # e # w"
      by (cases u; cases "tl u"; cases "tl (tl u)"; cases "tl (tl (tl u))") auto
    then show ?thesis
      by (simp add: decodeRune_def Let_def byteAt_simps)
  qed
qed

lemma runes_Nil: "runes [] = []"
  by (simp add: runes.simps)

lemma runes_append_ascii:
  "(of_char c :: int) < 0x80 \<Longrightarrow> runes (u @ c # v) = runes u @ of_char c # runes v"
proof (induction u rule: length_induct)
  case (1 u)
  show ?case
  proof (cases "u = []")
    case True
    with 1(2) show ?thesis
      by (subst runes.simps) (simp add: decodeRune_ascii runes_Nil)
  next
    case False
    have w: "0 < snd (decodeRune u)" "snd (decodeRune u) \<le> length u"
      using False by (simp_all add: decodeRune_width decodeRune_le)
    then have "length (drop (snd (decodeRune u)) u) < length u"
      using False by simp
    with 1 have ih: "runes (drop (snd (decodeRune u)) u @ c # v)
        = runes (drop (snd (decodeRune u)) u) @ of_char c # runes v"
      by blast
    have d: "decodeRune (u @ c # v) = decodeRune u"
      using False 1(2) by (rule decodeRune_append_ascii)
    have "runes (u @ c # v) = fst (decodeRune u) # runes (drop (snd (decodeRune u)) u @ c # v)"
      using w by (subst runes.simps) (simp add: d)
    also have "\<dots> = (fst (decodeRune u) # runes (drop (snd (decodeRune u)) u)) @ of_char c # runes v"
      by (simp add: ih)
    also have "fst (decodeRune u) # runes (drop (snd (decodeRune u)) u) = runes u"
      using False by (subst (2) runes.simps) simp
    finally show ?thesis .
  qed
qed

lemma of_char_int_nat: "(of_char c :: int) = int (of_char c :: nat)"
  by (simp add: of_char_def)

lemma isASCII_int: "isASCII c \<Longrightarrow> (of_char c :: int) < 0x80"
  by (simp add: isASCII_def of_char_int_nat)

lemma runes_ascii: "list_all isASCII s \<Longrightarrow> runes s = map of_char s"
proof (induction s)
  case Nil
  then show ?case by (simp add: runes_Nil)
next
  case (Cons c s)
  then have c: "isASCII c" and s: "runes s = map of_char s"
    by simp_all
  from runes_append_ascii [OF isASCII_int [OF c], of "[]" s] show ?case
    by (simp only: s runes_Nil append_Nil list.map)
qed

text \<open>Title case, word by word.\<close>

lemma titleFrom_append:
  "titleFrom U p (a @ b) = titleFrom U p a @ titleFrom U (last (p # a)) b"
  by (induction a arbitrary: p) simp_all

lemma toTitle_space: "toTitle U 0x20 = 0x20"
  by (simp add: toTitle_def)

lemma char_of_32: "char_of (32 :: int) = CHR '' ''"
  by code_simp

lemma writeRune_space: "writeRune 0x20 = '' ''"
  by (simp add: writeRune_def encodeRune_def char_of_32)

lemma title_Nil: "title U [] = []"
  by (simp add: title_def runes_Nil)

lemma title_space:
  "title U (u @ CHR '' '' # v) = title U u @ CHR '' '' # title U v"
proof -
  have "runes (u @ CHR '' '' # v) = runes u @ 0x20 # runes v"
    using runes_append_ascii [of "CHR '' ''" u v] by simp
  then show ?thesis
    by (simp add: title_def titleFrom_append toTitle_space writeRune_space)
qed

lemma title_join:
  "title U (join ws '' '') = join (map (title U) ws) '' ''"
proof (induction ws)
  case Nil
  then show ?case by (simp add: title_Nil)
next
  case (Cons w ws)
  show ?case
  proof (cases ws)
    case Nil
    then show ?thesis by simp
  next
    case (Cons y ys)
    with Cons.IH show ?thesis by (simp add: title_space)
  qed
qed

lemma join_splitOn: "join (splitOn s c) [c] = s"
proof (induction s)
  case Nil
  then show ?case by simp
next
  case (Cons a s)
  then show ?case by (cases "splitOn s c"; cases "tl (splitOn s c)") auto
qed

lemma title_words: "title U s = join (map (title U) (splitOn s (CHR '' ''))) '' ''"
  using title_join [of U "splitOn s (CHR '' '')"] by (simp add: join_splitOn)

lemma length_titleFrom: "length (titleFrom U p rs) = length rs"
  by (induction rs arbitrary: p) simp_all

lemma titleFrom_nth:
  "i < length rs \<Longrightarrow>
   titleFrom U p rs ! i =
     (if isSeparator U (if i = 0 then p else rs ! (i - 1)) then toTitle U (rs ! i) else rs ! i)"
proof (induction rs arbitrary: p i)
  case Nil
  then show ?case by simp
next
  case (Cons r rs)
  show ?case
  proof (cases i)
    case 0
    then show ?thesis by simp
  next
    case (Suc j)
    with Cons.prems have "j < length rs" by simp
    from Cons.IH [OF this, of r] Suc show ?thesis by (cases j) simp_all
  qed
qed

lemma isSeparator_space: "isSeparator U 0x20"
  by (simp add: isSeparator_def)

lemma titleFrom_positions:
  "titleFrom U 0x20 rs =
     map (\<lambda>i. if i = 0 \<or> isSeparator U (rs ! (i - 1)) then toTitle U (rs ! i) else rs ! i)
       [0..<length rs]"
  by (rule nth_equalityI) (auto simp: length_titleFrom titleFrom_nth isSeparator_space)

lemma title_titleCase: "title U w = spec_titleCase U w"
  by (simp add: title_def spec_titleCase_def Let_def titleFrom_positions comp_def)

lemma generateName_spec:
  "generateName U filename category subcategory = spec_generateName U filename category subcategory"
proof -
  have e: "title U = spec_titleCase U"
    by (rule ext) (rule title_titleCase)
  show ?thesis
    unfolding generateName_eq spec_generateName_def
    by (subst title_words) (simp only: e)
qed

text \<open>Text in ASCII.\<close>

lemma toTitle_ascii:
  "isASCII c \<Longrightarrow> toTitle U (of_char c) = of_char (upperByte c)"
  by (auto simp: isASCII_def toTitle_def upperByte_def Let_def of_char_int_nat)

lemma writeRune_ascii: "isASCII c \<Longrightarrow> writeRune (of_char c) = [c]"
  by (simp add: isASCII_def writeRune_def encodeRune_def of_char_int_nat)

lemma upperByte_ascii: "isASCII c \<Longrightarrow> isASCII (upperByte c)"
  by (auto simp: isASCII_def upperByte_def Let_def)

lemma title_ascii_nth:
  assumes "list_all isASCII t"
  shows "length (title U t) = length t"
    and "i < length t \<Longrightarrow> title U t ! i =
           (if i = 0 \<or> isSeparator U (of_char (t ! (i - 1))) then upperByte (t ! i) else t ! i)"
proof -
  have r: "runes t = map of_char t"
    using assms by (rule runes_ascii)
  have w: "writeRune (titleFrom U 0x20 (map of_char t) ! j) =
      [if j = 0 \<or> isSeparator U (of_char (t ! (j - 1))) then upperByte (t ! j) else t ! j]"
    if "j < length t" for j
  proof -
    from assms that have a: "isASCII (t ! j)" by (simp add: list_all_length)
    have m: "map of_char t ! j = (of_char (t ! j) :: int)"
      using that by simp
    have m': "map of_char t ! (j - 1) = (of_char (t ! (j - 1)) :: int)"
      using that by simp
    have "titleFrom U 0x20 (map of_char t) ! j =
        (if isSeparator U (if j = 0 then 0x20 else map of_char t ! (j - 1))
         then toTitle U (map of_char t ! j) else map of_char t ! j)"
      using that by (intro titleFrom_nth) simp
    then have "titleFrom U 0x20 (map of_char t) ! j =
        (if isSeparator U (if j = 0 then 0x20 else of_char (t ! (j - 1)))
         then of_char (upperByte (t ! j)) else of_char (t ! j))"
      by (simp only: m m' toTitle_ascii [OF a])
    then have "titleFrom U 0x20 (map of_char t) ! j =
        (if j = 0 \<or> isSeparator U (of_char (t ! (j - 1))) then of_char (upperByte (t ! j))
         else of_char (t ! j))"
      by (cases "j = 0") (simp_all add: isSeparator_space)
    then show ?thesis
      by (simp add: writeRune_ascii [OF a] writeRune_ascii [OF upperByte_ascii [OF a]])
  qed
  have "map writeRune (titleFrom U 0x20 (map of_char t)) =
      map (\<lambda>j. [if j = 0 \<or> isSeparator U (of_char (t ! (j - 1))) then upperByte (t ! j) else t ! j])
        [0..<length t]"
    by (rule nth_equalityI) (simp_all add: length_titleFrom w)
  then have t: "title U t =
      map (\<lambda>j. if j = 0 \<or> isSeparator U (of_char (t ! (j - 1))) then upperByte (t ! j) else t ! j)
        [0..<length t]"
    by (simp add: title_def r concat_map_singleton comp_def)
  show "length (title U t) = length t"
    by (simp add: t)
  show "title U t ! i =
           (if i = 0 \<or> isSeparator U (of_char (t ! (i - 1))) then upperByte (t ! i) else t ! i)"
    if "i < length t"
    using that by (simp add: t)
qed


text \<open>
  Writing a rune that was read from a well-formed sequence gives back the bytes of the
  sequence: this is why \<^verbatim>\<open>strings.Map\<close> may copy the bytes of the runes that the mapping
  leaves as they are.
\<close>

lemma of_char_range: "0 \<le> (of_char c :: int)" "(of_char c :: int) < 256"
  by (simp_all add: of_char_def)

lemma mask2_byte: fixes A :: int assumes "0xC0 \<le> A" "A \<le> 0xDF" shows "A mod 32 = A - 0xC0"
  using assms by presburger

lemma maskx_byte: fixes B :: int assumes "0x80 \<le> B" "B \<le> 0xBF" shows "B mod 64 = B - 0x80"
  using assms by presburger

lemma mask3_byte: fixes A :: int assumes "0xE0 \<le> A" "A \<le> 0xEF" shows "A mod 16 = A - 0xE0"
  using assms by presburger

lemma mask4_byte: fixes A :: int assumes "0xF0 \<le> A" "A \<le> 0xF7" shows "A mod 8 = A - 0xF0"
  using assms by presburger

lemma div_mod_low: fixes x y :: int assumes "0 \<le> y" "y < n"
  shows "(x * n + y) div n = x" "(x * n + y) mod n = y"
  using assms by (simp_all add: div_pos_pos_trivial mod_pos_pos_trivial)

lemma two_byte_rune:
  fixes A B :: int
  assumes "0xC2 \<le> A" "A \<le> 0xDF" "0x80 \<le> B" "B \<le> 0xBF"
  shows "0x80 \<le> A mod 32 * 64 + B mod 64" "A mod 32 * 64 + B mod 64 \<le> 0x7FF"
    "0xC0 + (A mod 32 * 64 + B mod 64) div 64 = A" "0x80 + (A mod 32 * 64 + B mod 64) mod 64 = B"
proof -
  have a: "A mod 32 = A - 0xC0" using assms by (intro mask2_byte) simp_all
  have b: "B mod 64 = B - 0x80" using assms by (intro maskx_byte) simp_all
  have y: "0 \<le> B - 0x80" "B - 0x80 < 64" using assms by simp_all
  show "0x80 \<le> A mod 32 * 64 + B mod 64" "A mod 32 * 64 + B mod 64 \<le> 0x7FF"
    unfolding a b using assms by simp_all
  show "0xC0 + (A mod 32 * 64 + B mod 64) div 64 = A" "0x80 + (A mod 32 * 64 + B mod 64) mod 64 = B"
    unfolding a b div_mod_low [OF y] by simp_all
qed

lemma three_byte_rune:
  fixes A B C :: int
  assumes "0xE0 \<le> A" "A \<le> 0xEF" "0x80 \<le> B" "B \<le> 0xBF" "0x80 \<le> C" "C \<le> 0xBF"
    "A = 0xE0 \<longrightarrow> 0xA0 \<le> B" "A = 0xED \<longrightarrow> B \<le> 0x9F"
  defines "r \<equiv> A mod 16 * 4096 + B mod 64 * 64 + C mod 64"
  shows "0x800 \<le> r" "r \<le> 0xFFFF" "\<not> (0xD800 \<le> r \<and> r \<le> 0xDFFF)"
    "0xE0 + r div 4096 = A" "0x80 + r div 64 mod 64 = B" "0x80 + r mod 64 = C"
proof -
  have a: "A mod 16 = A - 0xE0" using assms by (intro mask3_byte) simp_all
  have b: "B mod 64 = B - 0x80" using assms by (intro maskx_byte) simp_all
  have c: "C mod 64 = C - 0x80" using assms by (intro maskx_byte) simp_all
  have r: "r = (A - 0xE0) * 4096 + ((B - 0x80) * 64 + (C - 0x80))"
    unfolding r_def a b c by simp
  have r': "r = ((A - 0xE0) * 64 + (B - 0x80)) * 64 + (C - 0x80)"
    unfolding r by simp
  have y: "0 \<le> (B - 0x80) * 64 + (C - 0x80)" "(B - 0x80) * 64 + (C - 0x80) < 4096"
    using assms by simp_all
  have z: "0 \<le> C - 0x80" "C - 0x80 < 64" using assms by simp_all
  have w: "0 \<le> B - 0x80" "B - 0x80 < 64" using assms by simp_all
  show "0x800 \<le> r" "r \<le> 0xFFFF"
    unfolding r using assms by auto
  consider "A < 0xED" | "A = 0xED" | "0xED < A" by linarith
  then show "\<not> (0xD800 \<le> r \<and> r \<le> 0xDFFF)"
  proof cases
    case 1
    then have "(A - 0xE0) * 4096 \<le> 12 * 4096" by simp
    with y show ?thesis unfolding r by linarith
  next
    case 2
    with assms(8) have "B \<le> 0x9F" by simp
    with 2 z show ?thesis unfolding r by simp
  next
    case 3
    then have "14 * 4096 \<le> (A - 0xE0) * 4096" by simp
    with y show ?thesis unfolding r by linarith
  qed
  show "0xE0 + r div 4096 = A" unfolding r div_mod_low [OF y] by simp
  show "0x80 + r div 64 mod 64 = B" unfolding r' div_mod_low [OF z] div_mod_low [OF w] by simp
  show "0x80 + r mod 64 = C" unfolding r' div_mod_low [OF z] by simp
qed

lemma four_byte_rune:
  fixes A B C D :: int
  assumes "0xF0 \<le> A" "A \<le> 0xF4" "0x80 \<le> B" "B \<le> 0xBF" "0x80 \<le> C" "C \<le> 0xBF"
    "0x80 \<le> D" "D \<le> 0xBF"
    "A = 0xF0 \<longrightarrow> 0x90 \<le> B" "A = 0xF4 \<longrightarrow> B \<le> 0x8F"
  defines "r \<equiv> A mod 8 * 262144 + B mod 64 * 4096 + C mod 64 * 64 + D mod 64"
  shows "0x10000 \<le> r" "r \<le> 0x10FFFF"
    "0xF0 + r div 262144 = A" "0x80 + r div 4096 mod 64 = B" "0x80 + r div 64 mod 64 = C"
    "0x80 + r mod 64 = D"
proof -
  have a: "A mod 8 = A - 0xF0" using assms by (intro mask4_byte) simp_all
  have b: "B mod 64 = B - 0x80" using assms by (intro maskx_byte) simp_all
  have c: "C mod 64 = C - 0x80" using assms by (intro maskx_byte) simp_all
  have d: "D mod 64 = D - 0x80" using assms by (intro maskx_byte) simp_all
  have r1: "r = (A - 0xF0) * 262144 + ((B - 0x80) * 4096 + (C - 0x80) * 64 + (D - 0x80))"
    unfolding r_def a b c d by simp
  have r2: "r = ((A - 0xF0) * 64 + (B - 0x80)) * 4096 + ((C - 0x80) * 64 + (D - 0x80))"
    unfolding r1 by simp
  have r3: "r = (((A - 0xF0) * 64 + (B - 0x80)) * 64 + (C - 0x80)) * 64 + (D - 0x80)"
    unfolding r1 by simp
  have y1: "0 \<le> (B - 0x80) * 4096 + (C - 0x80) * 64 + (D - 0x80)"
    "(B - 0x80) * 4096 + (C - 0x80) * 64 + (D - 0x80) < 262144"
    using assms by simp_all
  have y2: "0 \<le> (C - 0x80) * 64 + (D - 0x80)" "(C - 0x80) * 64 + (D - 0x80) < 4096"
    using assms by simp_all
  have zb: "0 \<le> B - 0x80" "B - 0x80 < 64" using assms by simp_all
  have zc: "0 \<le> C - 0x80" "C - 0x80 < 64" using assms by simp_all
  have zd: "0 \<le> D - 0x80" "D - 0x80 < 64" using assms by simp_all
  show "0x10000 \<le> r" "r \<le> 0x10FFFF"
    unfolding r1 using assms by auto
  show "0xF0 + r div 262144 = A" unfolding r1 div_mod_low [OF y1] by simp
  show "0x80 + r div 4096 mod 64 = B" unfolding r2 div_mod_low [OF y2] div_mod_low [OF zb] by simp
  show "0x80 + r div 64 mod 64 = C" unfolding r3 div_mod_low [OF zd] div_mod_low [OF zc] by simp
  show "0x80 + r mod 64 = D" unfolding r3 div_mod_low [OF zd] by simp
qed


lemma encodeRune_valid:
  assumes "s \<noteq> []" and "snd (decodeRune s) \<noteq> 1 \<or> byteAt s 0 < 0x80"
  shows "encodeRune (fst (decodeRune s)) = take (snd (decodeRune s)) s"
proof -
  obtain a w where s: "s = a # w" using assms(1) by (cases s) auto
  define A :: int where "A = of_char a"
  have A: "byteAt s 0 = A" "char_of A = a" "0 \<le> A"
    by (simp_all add: s A_def byteAt_def of_char_range)
  consider "A < 0x80" | "0x80 \<le> A" "A < 0xC2 \<or> 0xF4 < A" | "0xC2 \<le> A" "A < 0xE0"
    | "0xE0 \<le> A" "A < 0xF0" | "0xF0 \<le> A" "A \<le> 0xF4"
    by linarith
  then show ?thesis
  proof cases
    case 1
    with A show ?thesis by (simp add: decodeRune_def s encodeRune_def)
  next
    case 2
    with assms(2) A show ?thesis by (auto simp: decodeRune_def s)
  next
    case 3
    from assms(2) 3 A obtain b w1 where w: "w = b # w1"
      by (cases w) (auto simp: decodeRune_def s Let_def)
    define B :: int where "B = of_char b"
    have B: "byteAt s 1 = B" "char_of B = b"
      by (simp_all add: s w B_def byteAt_def)
    from assms(2) 3 A B have ok: "0x80 \<le> B" "B \<le> 0xBF"
      by (auto simp: decodeRune_def s w Let_def split: if_splits)
    with 3 A B have d: "decodeRune s = (A mod 32 * 64 + B mod 64, 2)"
      by (simp add: decodeRune_def Let_def s w)
    have "A \<le> 0xDF" using 3 by simp
    note e = two_byte_rune [OF 3(1) this ok]
    define r where "r = A mod 32 * 64 + B mod 64"
    note e' = e [folded r_def]
    have "encodeRune r = [char_of (0xC0 + r div 64), char_of (0x80 + r mod 64)]"
      using e'(1,2) by (simp add: encodeRune_def)
    also have "\<dots> = [char_of A, char_of B]" by (simp only: e')
    also have "\<dots> = take 2 s" by (simp add: A B s w)
    finally show ?thesis by (simp add: d r_def)
  next
    case 4
    from assms(2) 4 A obtain b c w2 where w: "w = b # c # w2"
      by (cases w; cases "tl w") (auto simp: decodeRune_def s Let_def)
    define B :: int where "B = of_char b"
    define C :: int where "C = of_char c"
    have B: "byteAt s 1 = B" "char_of B = b" "byteAt s 2 = C" "char_of C = c"
      by (simp_all add: s w B_def C_def byteAt_def eval_nat_numeral)
    from assms(2) 4 A B have ok: "0x80 \<le> B" "B \<le> 0xBF" "0x80 \<le> C" "C \<le> 0xBF"
      "A = 0xE0 \<longrightarrow> 0xA0 \<le> B" "A = 0xED \<longrightarrow> B \<le> 0x9F"
      by (auto simp: decodeRune_def s w Let_def split: if_splits)
    with 4 A B have d: "decodeRune s = (A mod 16 * 4096 + B mod 64 * 64 + C mod 64, 3)"
      by (auto simp: decodeRune_def Let_def s w)
    have "A \<le> 0xEF" using 4 by simp
    note e = three_byte_rune [OF 4(1) this ok]
    define r where "r = A mod 16 * 4096 + B mod 64 * 64 + C mod 64"
    note e' = e [folded r_def]
    have "encodeRune r = [char_of (0xE0 + r div 4096), char_of (0x80 + r div 64 mod 64),
        char_of (0x80 + r mod 64)]"
      using e'(1,2,3) by (auto simp: encodeRune_def)
    also have "\<dots> = [char_of A, char_of B, char_of C]" by (simp only: e')
    also have "\<dots> = take 3 s" by (simp add: A B s w)
    finally show ?thesis by (simp add: d r_def)
  next
    case 5
    from assms(2) 5 A obtain b c d0 w3 where w: "w = b # c # d0 # w3"
      by (cases w; cases "tl w"; cases "tl (tl w)") (auto simp: decodeRune_def s Let_def)
    define B :: int where "B = of_char b"
    define C :: int where "C = of_char c"
    define D :: int where "D = of_char d0"
    have B: "byteAt s 1 = B" "char_of B = b" "byteAt s 2 = C" "char_of C = c"
      "byteAt s 3 = D" "char_of D = d0"
      by (simp_all add: s w B_def C_def D_def byteAt_def eval_nat_numeral)
    from assms(2) 5 A B have ok: "0x80 \<le> B" "B \<le> 0xBF" "0x80 \<le> C" "C \<le> 0xBF"
      "0x80 \<le> D" "D \<le> 0xBF"
      "A = 0xF0 \<longrightarrow> 0x90 \<le> B" "A = 0xF4 \<longrightarrow> B \<le> 0x8F"
      by (auto simp: decodeRune_def s w Let_def split: if_splits)
    with 5 A B have d: "decodeRune s
        = (A mod 8 * 262144 + B mod 64 * 4096 + C mod 64 * 64 + D mod 64, 4)"
      by (auto simp: decodeRune_def Let_def s w)
    note e = four_byte_rune [OF 5 ok]
    define r where "r = A mod 8 * 262144 + B mod 64 * 4096 + C mod 64 * 64 + D mod 64"
    note e' = e [folded r_def]
    have "encodeRune r = [char_of (0xF0 + r div 262144), char_of (0x80 + r div 4096 mod 64),
        char_of (0x80 + r div 64 mod 64), char_of (0x80 + r mod 64)]"
      using e'(1,2) by (simp add: encodeRune_def)
    also have "\<dots> = [char_of A, char_of B, char_of C, char_of D]" by (simp only: e')
    also have "\<dots> = take 4 s" by (simp add: A B s w)
    finally show ?thesis by (simp add: d r_def)
  qed
qed

text \<open>Plain words.\<close>

lemma splitOn_pieces:
  "list_all (\<lambda>c. c = sep \<or> P c) s \<Longrightarrow> list_all (list_all P) (splitOn s sep)"
proof (induction s)
  case Nil
  then show ?case by simp
next
  case (Cons c s)
  obtain p ps where sp: "splitOn s sep = p # ps"
    using splitOn_not_Nil [of s sep] by (cases "splitOn s sep") auto
  with Cons show ?case by auto
qed

lemma plain_spaced:
  "list_all spec_plain_char s \<Longrightarrow> list_all (\<lambda>c. c = CHR '' '' \<or> spec_word_char c) (spec_spaced s)"
  by (induction s) (auto simp: spec_plain_char_def spec_spaced_def spec_word_char_def Let_def)

lemma spec_word_char_ascii: "spec_word_char c \<Longrightarrow> isASCII c"
  by (auto simp: spec_word_char_def isASCII_def Let_def)

lemma spec_word_char_no_separator: "spec_word_char c \<Longrightarrow> \<not> isSeparator U (of_char c)"
  by (auto simp: spec_word_char_def isSeparator_def Let_def of_char_int_nat)

lemma title_plain_word:
  assumes "list_all spec_word_char w"
  shows "title U w = spec_capitalize w"
proof (rule nth_equalityI)
  have a: "list_all isASCII w"
    using assms by (auto simp: list_all_iff spec_word_char_ascii)
  have "length (spec_capitalize w) = length w"
    by (cases w) (simp_all add: spec_capitalize_def)
  then show "length (title U w) = length (spec_capitalize w)"
    by (simp add: title_ascii_nth(1) [OF a])
  fix i
  assume "i < length (title U w)"
  then have i: "i < length w"
    by (simp add: title_ascii_nth(1) [OF a])
  show "title U w ! i = spec_capitalize w ! i"
  proof (cases i)
    case 0
    with i title_ascii_nth(2) [OF a i, of U] show ?thesis
      by (cases w) (simp_all add: spec_capitalize_def)
  next
    case (Suc j)
    with i assms have "spec_word_char (w ! j)"
      by (simp add: list_all_length)
    then have "\<not> isSeparator U (of_char (w ! j))"
      by (rule spec_word_char_no_separator)
    with Suc i title_ascii_nth(2) [OF a i, of U] show ?thesis
      by (cases w) (simp_all add: spec_capitalize_def)
  qed
qed

lemma generateName_plain:
  assumes "list_all spec_plain_char (spec_stem filename)"
  shows "generateName U filename category subcategory = spec_plainName filename category subcategory"
proof -
  have "list_all (list_all spec_word_char) (splitOn (spec_spaced (spec_stem filename)) (CHR '' ''))"
    using assms by (intro splitOn_pieces plain_spaced)
  then have e: "map (title U) (splitOn (spec_spaced (spec_stem filename)) (CHR '' ''))
      = map spec_capitalize (splitOn (spec_spaced (spec_stem filename)) (CHR '' ''))"
    by (intro map_cong refl title_plain_word) (simp add: list_all_iff)
  show ?thesis
    unfolding generateName_eq spec_plainName_def
    by (subst title_words) (simp only: e)
qed

text \<open>
  C9. The generated name is a function of the file name, the category and the subcategory,
  given the Unicode tables of the Go release: it is the category in brackets (with a slash
  and the subcategory when there is one), a space, and the words of the stem in title
  case, joined by spaces, where the stem is the file name without its suffix \<^verbatim>\<open>.sql\<close>
  and the words are what lies between its hyphens, underscores and spaces. Title case
  maps to its title case the first character of a word and every one that follows a
  separator inside the word, and keeps the others; a byte that is not UTF-8 is written as
  U+FFFD. For a stem of ASCII letters, digits, hyphens, underscores and spaces the name
  is the words with their first letter in upper case, whatever the tables; for any text
  in ASCII, title case puts in upper case each letter that comes first or follows a
  separator and changes nothing else.
\<close>

theorem generateName_title_words:
  "generateName U filename category subcategory = spec_generateName U filename category subcategory
   \<and> spec_stem (stem @ ''.sql'') = stem
   \<and> (\<not> hasSuffix filename ''.sql'' \<longrightarrow> spec_stem filename = filename)
   \<and> (list_all spec_plain_char (spec_stem filename) \<longrightarrow>
        generateName U filename category subcategory = spec_plainName filename category subcategory)
   \<and> (list_all isASCII t \<longrightarrow>
        length (title U t) = length t \<and>
        (\<forall>i < length t. title U t ! i =
           (if i = 0 \<or> isSeparator U (of_char (t ! (i - 1))) then upperByte (t ! i) else t ! i)))"
proof -
  have a: "spec_stem (stem @ ''.sql'') = stem"
    by (simp add: spec_stem_def hasSuffix_def)
  have b: "\<not> hasSuffix filename ''.sql'' \<longrightarrow> spec_stem filename = filename"
    by (simp add: spec_stem_def)
  have c: "list_all spec_plain_char (spec_stem filename) \<longrightarrow>
        generateName U filename category subcategory = spec_plainName filename category subcategory"
    using generateName_plain by blast
  have d: "list_all isASCII t \<longrightarrow>
        length (title U t) = length t \<and>
        (\<forall>i < length t. title U t ! i =
           (if i = 0 \<or> isSeparator U (of_char (t ! (i - 1))) then upperByte (t ! i) else t ! i))"
    using title_ascii_nth by blast
  from generateName_spec a b c d show ?thesis by blast
qed

theorem generateName_title_words_witness:
  "(\<forall>U. generateName U ''unusual-child.sql'' ''detection'' ''execution''
           = ''[detection/execution] Unusual Child''
        \<and> generateName U ''sketchy_fetcher-events'' ''policy'' [] = ''[policy] Sketchy Fetcher Events''
        \<and> title U ''a.b c'' ! 2 = CHR ''B'')
   \<and> generateName latin1 [CHR 0xC3, CHR 0xA9, CHR ''c'', CHR ''o'', CHR ''l'', CHR ''e'',
                           CHR ''.'', CHR ''s'', CHR ''q'', CHR ''l''] ''policy'' []
       = ''[policy] '' @ [CHR 0xC3, CHR 0x89, CHR ''c'', CHR ''o'', CHR ''l'', CHR ''e'']
   \<and> generateName latin1 [CHR ''a'', CHR 0xFF, CHR ''-'', CHR 0xC3, CHR 0xA9] ''policy'' []
       = ''[policy] '' @ [CHR ''A'', CHR 0xEF, CHR 0xBF, CHR 0xBD, CHR '' '', CHR 0xC3, CHR 0x89]"
proof -
  have p1: "list_all spec_plain_char (spec_stem ''unusual-child.sql'')"
    by code_simp
  have v1: "spec_plainName ''unusual-child.sql'' ''detection'' ''execution''
     = ''[detection/execution] Unusual Child''"
    by code_simp
  have p2: "list_all spec_plain_char (spec_stem ''sketchy_fetcher-events'')"
    by code_simp
  have v2: "spec_plainName ''sketchy_fetcher-events'' ''policy'' []
     = ''[policy] Sketchy Fetcher Events''"
    by code_simp
  have p3: "list_all isASCII ''a.b c''" and i3: "(2::nat) < length ''a.b c''"
    by code_simp+
  have v4: "spec_generateName latin1 [CHR 0xC3, CHR 0xA9, CHR ''c'', CHR ''o'', CHR ''l'', CHR ''e'',
                           CHR ''.'', CHR ''s'', CHR ''q'', CHR ''l''] ''policy'' []
       = ''[policy] '' @ [CHR 0xC3, CHR 0x89, CHR ''c'', CHR ''o'', CHR ''l'', CHR ''e'']"
    by code_simp
  have v5: "spec_generateName latin1 [CHR ''a'', CHR 0xFF, CHR ''-'', CHR 0xC3, CHR 0xA9] ''policy'' []
       = ''[policy] '' @ [CHR ''A'', CHR 0xEF, CHR 0xBF, CHR 0xBD, CHR '' '', CHR 0xC3, CHR 0x89]"
    by code_simp
  have g: "generateName U ''unusual-child.sql'' ''detection'' ''execution''
           = ''[detection/execution] Unusual Child''
        \<and> generateName U ''sketchy_fetcher-events'' ''policy'' [] = ''[policy] Sketchy Fetcher Events''
        \<and> title U ''a.b c'' ! 2 = CHR ''B''" for U
  proof -
    have v3: "(if (2::nat) = 0 \<or> isSeparator U (of_char (''a.b c'' ! (2 - 1)))
               then upperByte (''a.b c'' ! 2) else ''a.b c'' ! 2) = CHR ''B''"
      by code_simp
    have g1: "generateName U ''unusual-child.sql'' ''detection'' ''execution''
       = spec_plainName ''unusual-child.sql'' ''detection'' ''execution''"
      using generateName_title_words [of U "''unusual-child.sql''" "''detection''" "''execution''"] p1
      by blast
    have g2: "generateName U ''sketchy_fetcher-events'' ''policy'' []
       = spec_plainName ''sketchy_fetcher-events'' ''policy'' []"
      using generateName_title_words [of U "''sketchy_fetcher-events''" "''policy''" "[]"] p2
      by blast
    have g3: "title U ''a.b c'' ! 2 =
       (if (2::nat) = 0 \<or> isSeparator U (of_char (''a.b c'' ! (2 - 1)))
        then upperByte (''a.b c'' ! 2) else ''a.b c'' ! 2)"
      using generateName_title_words [of U "[]" "[]" "[]" "[]" "''a.b c''"] p3 i3
      by blast
    show ?thesis
      by (simp only: g1 g2 g3 v1 v2 v3)
  qed
  have g4: "generateName latin1 [CHR 0xC3, CHR 0xA9, CHR ''c'', CHR ''o'', CHR ''l'', CHR ''e'',
                           CHR ''.'', CHR ''s'', CHR ''q'', CHR ''l''] ''policy'' []
       = ''[policy] '' @ [CHR 0xC3, CHR 0x89, CHR ''c'', CHR ''o'', CHR ''l'', CHR ''e'']"
    using generateName_title_words [of latin1 "[CHR 0xC3, CHR 0xA9, CHR ''c'', CHR ''o'', CHR ''l'',
        CHR ''e'', CHR ''.'', CHR ''s'', CHR ''q'', CHR ''l'']" "''policy''" "[]"]
    by (simp only: v4)
  have g5: "generateName latin1 [CHR ''a'', CHR 0xFF, CHR ''-'', CHR 0xC3, CHR 0xA9] ''policy'' []
       = ''[policy] '' @ [CHR ''A'', CHR 0xEF, CHR 0xBF, CHR 0xBD, CHR '' '', CHR 0xC3, CHR 0x89]"
    using generateName_title_words [of latin1 "[CHR ''a'', CHR 0xFF, CHR ''-'', CHR 0xC3, CHR 0xA9]"
        "''policy''" "[]"]
    by (simp only: v5)
  from g g4 g5 show ?thesis by blast
qed

subsection \<open>The document writer\<close>

lemma writeQueryYAML_append: "writeQueryYAML w qu ov = w @ writeQueryYAML [] qu ov"
  by (simp add: writeQueryYAML_chunks)

lemma writeQueries_later:
  "0 < i \<Longrightarrow>
   writeQueries w i rs ov
     = w @ concat (map (\<lambda>qu. (''---'' @ [newline]) # writeQueryYAML [] qu ov) rs)"
proof (induction rs arbitrary: w i)
  case Nil
  then show ?case by simp
next
  case (Cons r rs)
  have "writeQueryYAML (writeString w (''---'' @ [newline])) r ov
      = w @ (''---'' @ [newline]) # writeQueryYAML [] r ov"
    by (subst writeQueryYAML_append) (simp add: writeString_def)
  with Cons show ?case by simp
qed

lemma writeQueryYAML_record: "writeQueryYAML [] qu ov = spec_record qu ov"
  by (simp add: writeQueryYAML_chunks spec_record_def spec_scalar_def escapeYAML_needs
      spec_resolved_interval_def)

lemma writeQueries_document: "writeQueries [] 0 rs ov = spec_document rs ov"
  by (cases rs) (simp_all add: spec_document_def writeQueries_later writeQueryYAML_record)

lemma spec_record_override:
  "0 < ov \<Longrightarrow> spec_record qu ov = spec_record (qu\<lparr>Interval := ov\<rparr>) 0"
  by (simp add: spec_record_def spec_resolved_interval_def)

lemma spec_document_override:
  "0 < ov \<Longrightarrow> spec_document rs ov = spec_document (map (\<lambda>qu. qu\<lparr>Interval := ov\<rparr>) rs) 0"
  by (cases rs) (simp_all add: spec_document_def spec_record_override [of ov] comp_def)

lemma foldl_groups:
  "foldl (\<lambda>groups qu.
            groups(Category qu \<mapsto> (case groups (Category qu) of None \<Rightarrow> [] | Some g \<Rightarrow> g) @ [qu]))
     g0 qs c
   = (if c \<in> dom g0 \<union> Category ` set qs
      then Some ((case g0 c of None \<Rightarrow> [] | Some g \<Rightarrow> g) @ inCategory c qs)
      else None)"
proof (induction qs arbitrary: g0)
  case Nil
  then show ?case by (auto simp: inCategory_def)
next
  case (Cons a qs)
  show ?case
    by (subst foldl_Cons, subst Cons.IH) (auto simp: inCategory_def split: option.splits)
qed

lemma dom_initialGroups: "dom initialGroups = set categories"
  by (auto simp: initialGroups_def categories_def)

lemma groupQueries_at:
  "groupQueries qs c =
     (if c \<in> set categories \<union> Category ` set qs then Some (inCategory c qs) else None)"
proof -
  have "c \<in> dom initialGroups \<Longrightarrow> initialGroups c = Some []"
    by (auto simp: initialGroups_def split: if_splits)
  moreover have "c \<notin> dom initialGroups \<Longrightarrow> initialGroups c = None"
    by auto
  ultimately show ?thesis
    unfolding groupQueries_def foldl_groups dom_initialGroups [symmetric]
    by (cases "c \<in> dom initialGroups") auto
qed

lemma dom_groupQueries: "dom (groupQueries qs) = set categories \<union> Category ` set qs"
  by (auto simp: groupQueries_at dom_def)

lemma writeCategories_frame:
  "writeCategories ok g fs cs = (fs', e) \<Longrightarrow>
   n \<notin> categoryFile ` {c \<in> set cs. nonEmptyGroup g c} \<Longrightarrow> fs' n = fs n"
proof (induction cs arbitrary: fs)
  case Nil
  then show ?case by simp
next
  case (Cons c cs)
  show ?case
  proof (cases "nonEmptyGroup g c")
    case False
    with Cons.prems have "writeCategories ok g fs cs = (fs', e)"
      by (auto simp: nonEmptyGroup_def split: option.splits)
    moreover from Cons.prems have "n \<notin> categoryFile ` {c \<in> set cs. nonEmptyGroup g c}" by auto
    ultimately show ?thesis by (rule Cons.IH)
  next
    case True
    then obtain rs where rs: "g c = Some rs" "rs \<noteq> []"
      by (auto simp: nonEmptyGroup_def split: option.splits)
    from Cons.prems True have ne: "n \<noteq> categoryFile c" by auto
    show ?thesis
    proof (cases "ok (categoryFile c)")
      case False
      with Cons.prems rs show ?thesis by simp
    next
      case True
      with Cons.prems rs
      have "writeCategories ok g (fs(categoryFile c \<mapsto> writeQueries [] 0 rs 0)) cs = (fs', e)"
        by simp
      moreover from Cons.prems have "n \<notin> categoryFile ` {c \<in> set cs. nonEmptyGroup g c}" by auto
      ultimately have "fs' n = (fs(categoryFile c \<mapsto> writeQueries [] 0 rs 0)) n" by (rule Cons.IH)
      with ne show ?thesis by simp
    qed
  qed
qed

lemma writeCategories_written:
  "writeCategories ok g fs cs = (fs', None) \<Longrightarrow> inj_on categoryFile (set cs) \<Longrightarrow>
   c \<in> set cs \<Longrightarrow> g c = Some rs \<Longrightarrow> rs \<noteq> [] \<Longrightarrow>
   fs' (categoryFile c) = Some (writeQueries [] 0 rs 0)"
proof (induction cs arbitrary: fs)
  case Nil
  then show ?case by simp
next
  case (Cons a cs)
  from Cons.prems(2) have inj: "inj_on categoryFile (set cs)"
    by (simp add: inj_on_def)
  show ?case
  proof (cases "c \<in> set cs")
    case True
    show ?thesis
    proof (cases "nonEmptyGroup g a")
      case False
      with Cons.prems(1) have "writeCategories ok g fs cs = (fs', None)"
        by (auto simp: nonEmptyGroup_def split: option.splits)
      from Cons.IH [OF this inj True Cons.prems(4,5)] show ?thesis .
    next
      case ne: True
      then obtain ra where ra: "g a = Some ra" "ra \<noteq> []"
        by (auto simp: nonEmptyGroup_def split: option.splits)
      with Cons.prems(1)
      have "writeCategories ok g (fs(categoryFile a \<mapsto> writeQueries [] 0 ra 0)) cs = (fs', None)"
        by (simp split: if_splits)
      from Cons.IH [OF this inj True Cons.prems(4,5)] show ?thesis .
    qed
  next
    case False
    with Cons.prems(3) have ca: "c = a" by simp
    with Cons.prems(1,4,5)
    have run: "writeCategories ok g (fs(categoryFile c \<mapsto> writeQueries [] 0 rs 0)) cs = (fs', None)"
      by (simp split: if_splits)
    have "categoryFile c \<notin> categoryFile ` {c \<in> set cs. nonEmptyGroup g c}"
    proof
      assume "categoryFile c \<in> categoryFile ` {c \<in> set cs. nonEmptyGroup g c}"
      then obtain d where "d \<in> set cs" "categoryFile d = categoryFile c" by auto
      with Cons.prems(2) ca have "d = c" by (auto simp: inj_on_def)
      with \<open>d \<in> set cs\<close> False show False by simp
    qed
    from writeCategories_frame [OF run this] show ?thesis by simp
  qed
qed

lemma writeCategories_succeeds:
  "(snd (writeCategories ok g fs cs) = None)
     = (\<forall>c \<in> set cs. nonEmptyGroup g c \<longrightarrow> ok (categoryFile c))"
  by (induction cs arbitrary: fs) (auto simp: nonEmptyGroup_def split: option.splits)

lemma categoryFile_known:
  "categoryFile ''detection'' = ''chainguard-detection.yml''"
  "categoryFile ''policy'' = ''chainguard-policy.yml''"
  "categoryFile ''incident_response'' = ''chainguard-incident-response.yml''"
  by (simp_all add: categoryFile_def replaceAll_def)

lemma categoryFile_map:
  "categoryFile c = ''chainguard-'' @ map (\<lambda>x. if x = CHR ''_'' then CHR ''-'' else x) c @ ''.yml''"
  by (simp add: categoryFile_def replaceAll_char)

lemma inj_categoryFile: "inj_on categoryFile (set categories)"
  by (simp add: categories_def categoryFile_known)

lemma groupQueries_known:
  "c \<in> set categories \<Longrightarrow> groupQueries qs c = Some (inCategory c qs)"
  by (simp add: groupQueries_at)

lemma nonEmptyGroup_known:
  "c \<in> set categories \<Longrightarrow> nonEmptyGroup (groupQueries qs) c = (inCategory c qs \<noteq> [])"
  by (simp add: nonEmptyGroup_def groupQueries_known)

lemma known_dom:
  "list_all (\<lambda>qu. Category qu \<in> set categories) qs \<Longrightarrow> dom (groupQueries qs) = set categories"
  by (auto simp: dom_groupQueries list_all_iff)

lemma writeFleetYAML_success:
  assumes "writeFleetYAML visit ok fs0 qs = (fs', None)"
  shows "\<exists>fs1. writeCategories ok (groupQueries qs) fs0 visit = (fs1, None)
           \<and> fs' = (if inCategory ''detection'' qs \<noteq> []
                    then fs1(''chainguard-detection-5min.yml''
                             \<mapsto> writeQueries [] 0 (inCategory ''detection'' qs) 300)
                    else fs1)
                   (''chainguard-all.yml'' \<mapsto> writeQueries [] 0 qs 0)"
proof -
  have d: "groupQueries qs ''detection'' = Some (inCategory ''detection'' qs)"
    by (simp add: groupQueries_known categories_def)
  obtain fs1 e where w: "writeCategories ok (groupQueries qs) fs0 visit = (fs1, e)"
    by (cases "writeCategories ok (groupQueries qs) fs0 visit")
  with assms have e: "e = None"
    by (cases e) (simp_all add: writeFleetYAML_def Let_def)
  from assms w e d
  have "fs' = (if inCategory ''detection'' qs \<noteq> []
                    then fs1(''chainguard-detection-5min.yml''
                             \<mapsto> writeQueries [] 0 (inCategory ''detection'' qs) 300)
                    else fs1)
                   (''chainguard-all.yml'' \<mapsto> writeQueries [] 0 qs 0)"
    by (simp add: writeFleetYAML_def Let_def del: fun_upd_apply split: if_splits)
  with w e show ?thesis by simp
qed

lemma writeFleetYAML_succeeds:
  "(snd (writeFleetYAML visit ok fs0 qs) = None)
     = ((\<forall>c \<in> set visit. nonEmptyGroup (groupQueries qs) c \<longrightarrow> ok (categoryFile c))
        \<and> (inCategory ''detection'' qs \<noteq> [] \<longrightarrow> ok ''chainguard-detection-5min.yml'')
        \<and> ok ''chainguard-all.yml'')"
proof -
  have d: "groupQueries qs ''detection'' = Some (inCategory ''detection'' qs)"
    by (simp add: groupQueries_known categories_def)
  obtain fs1 e where w: "writeCategories ok (groupQueries qs) fs0 visit = (fs1, e)"
    by (cases "writeCategories ok (groupQueries qs) fs0 visit")
  have "(e = None) = (\<forall>c \<in> set visit. nonEmptyGroup (groupQueries qs) c \<longrightarrow> ok (categoryFile c))"
    using writeCategories_succeeds [of ok "groupQueries qs" fs0 visit] w by simp
  then show ?thesis
    using w d by (cases e) (auto simp: writeFleetYAML_def Let_def)
qed

lemma writeFleetYAML_output:
  assumes known: "list_all (\<lambda>qu. Category qu \<in> set categories) qs"
    and order: "rangeOrder qs visit"
    and run: "writeFleetYAML visit ok fs0 qs = (fs', None)"
  shows "fs' = spec_output fs0 qs"
proof -
  from order known have sv: "set visit = set categories"
    by (simp add: rangeOrder_def known_dom)
  from writeFleetYAML_success [OF run] obtain fs1 where
    w: "writeCategories ok (groupQueries qs) fs0 visit = (fs1, None)" and
    fs': "fs' = (if inCategory ''detection'' qs \<noteq> []
                    then fs1(''chainguard-detection-5min.yml''
                             \<mapsto> writeQueries [] 0 (inCategory ''detection'' qs) 300)
                    else fs1)
                   (''chainguard-all.yml'' \<mapsto> writeQueries [] 0 qs 0)"
    by blast
  have inj: "inj_on categoryFile (set visit)"
    using inj_categoryFile sv by simp
  have at: "fs1 (categoryFile c) =
      (if inCategory c qs \<noteq> [] then Some (spec_document (inCategory c qs) 0)
       else fs0 (categoryFile c))" if c: "c \<in> set categories" for c
  proof (cases "inCategory c qs = []")
    case False
    from writeCategories_written [OF w inj _ groupQueries_known [OF c] False] c sv
    show ?thesis using False by (simp add: writeQueries_document)
  next
    case True
    have "categoryFile c \<notin> categoryFile ` {d \<in> set visit. nonEmptyGroup (groupQueries qs) d}"
    proof
      assume "categoryFile c \<in> categoryFile ` {d \<in> set visit. nonEmptyGroup (groupQueries qs) d}"
      then obtain d where d: "d \<in> set visit" "nonEmptyGroup (groupQueries qs) d"
        "categoryFile d = categoryFile c" by auto
      with inj c sv have "d = c" by (auto simp: inj_on_def)
      with d c True show False by (simp add: nonEmptyGroup_known)
    qed
    from writeCategories_frame [OF w this] True show ?thesis by simp
  qed
  have other: "fs1 n = fs0 n" if "n \<notin> categoryFile ` set categories" for n
    using writeCategories_frame [OF w, of n] that sv by auto
  show ?thesis
  proof
    fix n
    consider "n = ''chainguard-all.yml''" | "n = ''chainguard-detection-5min.yml''"
      | "n = categoryFile ''detection''" | "n = categoryFile ''policy''"
      | "n = categoryFile ''incident_response''"
      | "n \<noteq> ''chainguard-all.yml''" "n \<noteq> ''chainguard-detection-5min.yml''"
        "n \<notin> categoryFile ` set categories"
      by (auto simp: categories_def)
    then show "fs' n = spec_output fs0 qs n"
    proof cases
      case 1
      then show ?thesis by (simp add: fs' spec_output_def Let_def writeQueries_document)
    next
      case 2
      have "fs1 n = fs0 n" using other [of n] 2 by (simp add: categories_def categoryFile_known)
      with 2 show ?thesis
        by (simp add: fs' spec_output_def Let_def writeQueries_document spec_document_override)
    next
      case 3
      with at [of "''detection''"] show ?thesis
        by (simp add: fs' spec_output_def Let_def categories_def categoryFile_known)
    next
      case 4
      with at [of "''policy''"] show ?thesis
        by (simp add: fs' spec_output_def Let_def categories_def categoryFile_known)
    next
      case 5
      with at [of "''incident_response''"] show ?thesis
        by (simp add: fs' spec_output_def Let_def categories_def categoryFile_known)
    next
      case 6
      with other [of n] show ?thesis
        by (simp add: fs' spec_output_def Let_def categories_def categoryFile_known)
    qed
  qed
qed

lemma spec_output_idem: "spec_output (spec_output fs0 qs) qs = spec_output fs0 qs"
  by (rule ext) (simp add: spec_output_def Let_def)

lemma emits_interval:
  "emitsField (writeQueryYAML [] qu ov) ''  interval:'' = (0 < spec_resolved_interval qu ov)"
  using no_field_in_query_lines [of "CHR ''i''" "''nterval:''" "splitOn (Query qu) newline"]
  by (simp add: writeQueryYAML_chunks emitsField_def hasPrefix_def spec_resolved_interval_def)

lemma interval_chunk:
  "0 < spec_resolved_interval qu ov \<Longrightarrow>
   (''  interval: '' @ formatInt (spec_resolved_interval qu ov) @ [newline])
     \<in> set (writeQueryYAML [] qu ov)"
  by (simp add: writeQueryYAML_chunks spec_resolved_interval_def)

lemma formatInt_300: "formatInt 300 = ''300''"
  by code_simp

lemma writeCategories_nothing:
  "\<forall>c \<in> set cs. \<not> nonEmptyGroup g c \<Longrightarrow> writeCategories ok g fs cs = (fs, None)"
  by (induction cs) (auto simp: nonEmptyGroup_def split: option.splits)

lemma groupQueries_Nil_empty: "\<not> nonEmptyGroup (groupQueries []) c"
  by (simp add: nonEmptyGroup_def groupQueries_at inCategory_def)

lemma example_known: "list_all (\<lambda>qu. Category qu \<in> set categories) exampleQueries"
  by (simp add: exampleQueries_def exampleDetection_def exampleResponse_def categories_def
      emptyQuery_def)

lemma example_order:
  "distinct visit \<Longrightarrow> set visit = set categories \<Longrightarrow> rangeOrder exampleQueries visit"
  by (simp add: rangeOrder_def known_dom [OF example_known])

lemma example_order1: "rangeOrder exampleQueries [''detection'', ''policy'', ''incident_response'']"
  by (rule example_order) (auto simp: categories_def)

lemma example_order2: "rangeOrder exampleQueries [''incident_response'', ''policy'', ''detection'']"
  by (rule example_order) (auto simp: categories_def)

lemma example_succeeds: "snd (writeFleetYAML visit (\<lambda>_. True) fs0 qs) = None"
  by (simp add: writeFleetYAML_succeeds)

lemma example_groups:
  "inCategory ''detection'' exampleQueries = [exampleDetection]"
  "inCategory ''policy'' exampleQueries = []"
  "inCategory ''incident_response'' exampleQueries = [exampleResponse]"
  by (simp_all add: inCategory_def exampleQueries_def exampleDetection_def exampleResponse_def
      emptyQuery_def)

text \<open>
  C7. A serialized record has an interval line exactly when its resolved interval is
  positive, and the line then carries that interval; the resolved interval is the override
  when one is given and the record's own interval otherwise. When the run succeeds and
  there are detection records, the 5-minute document holds the detection records, in
  order, serialized with the override 300: it is the document of the same records with
  every interval set to 300, and each of its records carries the line
  \<^verbatim>\<open>interval: 300\<close>.
\<close>

theorem interval_emitted_iff_resolved_positive:
  "emitsField (writeQueryYAML [] qu ov) ''  interval:'' = (0 < spec_resolved_interval qu ov)
   \<and> (0 < spec_resolved_interval qu ov \<longrightarrow>
        (''  interval: '' @ formatInt (spec_resolved_interval qu ov) @ [newline])
          \<in> set (writeQueryYAML [] qu ov))
   \<and> (''  interval: 300'' @ [newline]) \<in> set (writeQueryYAML [] qu 300)
   \<and> (snd (writeFleetYAML visit ok fs0 qs) = None \<and> inCategory ''detection'' qs \<noteq> [] \<longrightarrow>
        fst (writeFleetYAML visit ok fs0 qs) ''chainguard-detection-5min.yml''
          = Some (spec_document (inCategory ''detection'' qs) 300)
        \<and> spec_document (inCategory ''detection'' qs) 300
          = spec_document (map (\<lambda>qu. qu\<lparr>Interval := 300\<rparr>) (inCategory ''detection'' qs)) 0)"
proof (intro conjI impI)
  show "emitsField (writeQueryYAML [] qu ov) ''  interval:'' = (0 < spec_resolved_interval qu ov)"
    by (rule emits_interval)
  show "(''  interval: '' @ formatInt (spec_resolved_interval qu ov) @ [newline])
          \<in> set (writeQueryYAML [] qu ov)" if "0 < spec_resolved_interval qu ov"
    using that by (rule interval_chunk)
  show "(''  interval: 300'' @ [newline]) \<in> set (writeQueryYAML [] qu 300)"
    using interval_chunk [of qu 300] by (simp add: spec_resolved_interval_def formatInt_300)
  show "fst (writeFleetYAML visit ok fs0 qs) ''chainguard-detection-5min.yml''
          = Some (spec_document (inCategory ''detection'' qs) 300)"
    if "snd (writeFleetYAML visit ok fs0 qs) = None \<and> inCategory ''detection'' qs \<noteq> []"
  proof -
    from that have "writeFleetYAML visit ok fs0 qs = (fst (writeFleetYAML visit ok fs0 qs), None)"
      by (metis prod.collapse)
    from writeFleetYAML_success [OF this] that show ?thesis
      by (auto simp: writeQueries_document)
  qed
  show "spec_document (inCategory ''detection'' qs) 300
          = spec_document (map (\<lambda>qu. qu\<lparr>Interval := 300\<rparr>) (inCategory ''detection'' qs)) 0"
    by (rule spec_document_override) simp
qed

theorem interval_emitted_iff_resolved_positive_witness:
  "\<not> emitsField (writeQueryYAML [] exampleDetection 0) ''  interval:''
   \<and> (''  interval: 60'' @ [newline]) \<in> set (writeQueryYAML [] exampleResponse 0)
   \<and> fst (writeFleetYAML [''detection'', ''policy'', ''incident_response''] (\<lambda>_. True) Map.empty
          exampleQueries) ''chainguard-detection-5min.yml''
       = Some (spec_document [exampleDetection\<lparr>Interval := 300\<rparr>] 0)"
proof -
  have r1: "spec_resolved_interval exampleDetection 0 = 0"
    by (simp add: spec_resolved_interval_def exampleDetection_def emptyQuery_def)
  have r2: "spec_resolved_interval exampleResponse 0 = 60"
    by (simp add: spec_resolved_interval_def exampleResponse_def emptyQuery_def)
  have f: "formatInt 60 = ''60''"
    by code_simp
  note t1 = interval_emitted_iff_resolved_positive
      [of exampleDetection 0 "[''detection'', ''policy'', ''incident_response'']" "\<lambda>_. True"
        Map.empty exampleQueries]
  note t2 = interval_emitted_iff_resolved_positive
      [of exampleResponse 0 "[]" "\<lambda>_. True" Map.empty "[]"]
  from t1 have a: "\<not> emitsField (writeQueryYAML [] exampleDetection 0) ''  interval:''"
    by (simp add: r1)
  from t2 have b: "(''  interval: 60'' @ [newline]) \<in> set (writeQueryYAML [] exampleResponse 0)"
    by (simp add: r2 f)
  from t1 have c: "fst (writeFleetYAML [''detection'', ''policy'', ''incident_response'']
          (\<lambda>_. True) Map.empty exampleQueries) ''chainguard-detection-5min.yml''
       = Some (spec_document [exampleDetection\<lparr>Interval := 300\<rparr>] 0)"
    by (simp add: example_succeeds example_groups)
  from a b c show ?thesis by blast
qed

text \<open>
  C8. In a run that succeeds on records of the three categories, whatever the order in
  which the groups are visited: the file \<^verbatim>\<open>chainguard-<category>.yml\<close> (underscores of the
  category replaced by hyphens) of a category that has records holds exactly the records
  of that category, in their original order, each serialized line by line as
  \<open>spec_record\<close> spells out and with a boundary line before each but the first; the file
  of a category without records is not written: it is as it was before the run.
\<close>

theorem category_documents:
  assumes "list_all (\<lambda>qu. Category qu \<in> set categories) qs"
    and "rangeOrder qs visit"
    and "snd (writeFleetYAML visit ok fs0 qs) = None"
    and "c \<in> set categories"
  shows "fst (writeFleetYAML visit ok fs0 qs) (categoryFile c) =
           (if inCategory c qs \<noteq> [] then Some (spec_document (inCategory c qs) 0)
            else fs0 (categoryFile c))
         \<and> categoryFile c
             = ''chainguard-'' @ map (\<lambda>x. if x = CHR ''_'' then CHR ''-'' else x) c @ ''.yml''"
proof -
  from assms(3) have "writeFleetYAML visit ok fs0 qs = (fst (writeFleetYAML visit ok fs0 qs), None)"
    by (metis prod.collapse)
  from writeFleetYAML_output [OF assms(1,2) this]
  have "fst (writeFleetYAML visit ok fs0 qs) = spec_output fs0 qs" .
  moreover from assms(4) have "spec_output fs0 qs (categoryFile c) =
           (if inCategory c qs \<noteq> [] then Some (spec_document (inCategory c qs) 0)
            else fs0 (categoryFile c))"
    by (auto simp: categories_def categoryFile_known spec_output_def Let_def)
  ultimately show ?thesis by (simp add: categoryFile_map)
qed

theorem category_documents_witness:
  "fst (writeFleetYAML [''incident_response'', ''policy'', ''detection''] (\<lambda>_. True) Map.empty
          exampleQueries) ''chainguard-incident-response.yml''
     = Some [''apiVersion: v1'' @ [newline], ''kind: query'' @ [newline], ''spec:'' @ [newline],
             ''  name: '' @ [dquote] @ ''[incident_response] Crontab'' @ [dquote] @ [newline],
             ''  description: Suspicious login'' @ [newline],
             ''  query: |'' @ [newline], ''    SELECT 2;'' @ [newline],
             ''  interval: 60'' @ [newline], ''  logging: snapshot'' @ [newline]]
   \<and> fst (writeFleetYAML [''incident_response'', ''policy'', ''detection''] (\<lambda>_. True) Map.empty
          exampleQueries) ''chainguard-policy.yml''
     = None"
proof -
  have c1: "''incident_response'' \<in> set categories" and c2: "''policy'' \<in> set categories"
    by (simp_all add: categories_def)
  have d: "spec_document [exampleResponse] 0
     = [''apiVersion: v1'' @ [newline], ''kind: query'' @ [newline], ''spec:'' @ [newline],
        ''  name: '' @ [dquote] @ ''[incident_response] Crontab'' @ [dquote] @ [newline],
        ''  description: Suspicious login'' @ [newline],
        ''  query: |'' @ [newline], ''    SELECT 2;'' @ [newline],
        ''  interval: 60'' @ [newline], ''  logging: snapshot'' @ [newline]]"
    by code_simp
  from category_documents [of exampleQueries "[''incident_response'', ''policy'', ''detection'']"
        "\<lambda>_. True" Map.empty "''incident_response''",
        OF example_known example_order2 example_succeeds c1]
    category_documents [of exampleQueries "[''incident_response'', ''policy'', ''detection'']"
        "\<lambda>_. True" Map.empty "''policy''",
        OF example_known example_order2 example_succeeds c2]
  show ?thesis
    by (simp add: example_groups categoryFile_known d)
qed

lemma categoryFile_all: "(categoryFile c = ''chainguard-all.yml'') = (c = ''all'')"
proof
  assume "categoryFile c = ''chainguard-all.yml''"
  then have "map (\<lambda>x. if x = CHR ''_'' then CHR ''-'' else x) c = ''all''"
    by (simp add: categoryFile_map)
  then show "c = ''all''"
    by (auto simp: map_eq_Cons_conv split: if_splits)
next
  assume "c = ''all''"
  then show "categoryFile c = ''chainguard-all.yml''"
    by (simp add: categoryFile_map)
qed

lemma writeFleetYAML_failure_frame:
  assumes "snd (writeFleetYAML visit ok fs0 qs) \<noteq> None" and "''all'' \<notin> set visit"
  shows "fst (writeFleetYAML visit ok fs0 qs) ''chainguard-all.yml'' = fs0 ''chainguard-all.yml''"
proof -
  obtain fs1 e where w: "writeCategories ok (groupQueries qs) fs0 visit = (fs1, e)"
    by (cases "writeCategories ok (groupQueries qs) fs0 visit")
  have "''chainguard-all.yml''
      \<notin> categoryFile ` {c \<in> set visit. nonEmptyGroup (groupQueries qs) c}"
  proof
    assume "''chainguard-all.yml''
        \<in> categoryFile ` {c \<in> set visit. nonEmptyGroup (groupQueries qs) c}"
    then obtain c where "c \<in> set visit" "categoryFile c = ''chainguard-all.yml''"
      by auto
    with assms(2) show False by (simp add: categoryFile_all)
  qed
  from writeCategories_frame [OF w this]
  have f: "fs1 ''chainguard-all.yml'' = fs0 ''chainguard-all.yml''" .
  show ?thesis
  proof (cases e)
    case (Some err)
    with w f show ?thesis by (simp add: writeFleetYAML_def Let_def)
  next
    case None
    with w f assms(1) show ?thesis
      by (auto simp: writeFleetYAML_def Let_def split: if_splits)
  qed
qed

text \<open>
  C10, as amended. The combined document is the last the writer creates, and a file
  creation that fails ends the run. So \<^verbatim>\<open>chainguard-all.yml\<close> is written, with all
  records in order, exactly in the runs that succeed: those in which the document of every
  category that has records, the 5-minute document when there are detection records, and
  the combined document itself can all be created. In a run that fails (no group being
  named \<^verbatim>\<open>all\<close>) the file is left as it was. With no records at all the run creates
  that file, empty, and nothing else, whenever it can be created: the documents of the
  categories and the 5-minute document are created only for groups that have records.
\<close>

theorem combined_document_written_on_success:
  "(snd (writeFleetYAML visit ok fs0 qs) = None \<longrightarrow>
      fst (writeFleetYAML visit ok fs0 qs) ''chainguard-all.yml'' = Some (spec_document qs 0))
   \<and> (snd (writeFleetYAML visit ok fs0 qs) = None)
       = ((\<forall>c \<in> set visit. nonEmptyGroup (groupQueries qs) c \<longrightarrow> ok (categoryFile c))
          \<and> (inCategory ''detection'' qs \<noteq> [] \<longrightarrow> ok ''chainguard-detection-5min.yml'')
          \<and> ok ''chainguard-all.yml'')
   \<and> (snd (writeFleetYAML visit ok fs0 qs) \<noteq> None \<and> ''all'' \<notin> set visit \<longrightarrow>
        fst (writeFleetYAML visit ok fs0 qs) ''chainguard-all.yml'' = fs0 ''chainguard-all.yml'')
   \<and> (ok ''chainguard-all.yml'' \<longrightarrow>
        writeFleetYAML visit ok fs0 [] = (fs0(''chainguard-all.yml'' \<mapsto> []), None))
   \<and> contents [] = []"
proof -
  have a: "fst (writeFleetYAML visit ok fs0 qs) ''chainguard-all.yml'' = Some (spec_document qs 0)"
    if "snd (writeFleetYAML visit ok fs0 qs) = None"
  proof -
    from that have "writeFleetYAML visit ok fs0 qs = (fst (writeFleetYAML visit ok fs0 qs), None)"
      by (metis prod.collapse)
    from writeFleetYAML_success [OF this] show ?thesis
      by (auto simp: writeQueries_document)
  qed
  have b: "writeFleetYAML visit ok fs0 [] = (fs0(''chainguard-all.yml'' \<mapsto> []), None)"
    if "ok ''chainguard-all.yml''"
  proof -
    have "writeCategories ok (groupQueries []) fs0 visit = (fs0, None)"
      by (rule writeCategories_nothing) (simp add: groupQueries_Nil_empty)
    moreover have "groupQueries [] ''detection'' = Some []"
      by (simp add: groupQueries_at categories_def inCategory_def)
    ultimately show ?thesis using that by (simp add: writeFleetYAML_def)
  qed
  have c: "fst (writeFleetYAML visit ok fs0 qs) ''chainguard-all.yml'' = fs0 ''chainguard-all.yml''"
    if "snd (writeFleetYAML visit ok fs0 qs) \<noteq> None \<and> ''all'' \<notin> set visit"
    using that writeFleetYAML_failure_frame by blast
  have d: "contents [] = []"
    by (simp add: contents_def)
  from a b c d writeFleetYAML_succeeds [of visit ok fs0 qs] show ?thesis
    by blast
qed

theorem combined_document_written_on_success_witness:
  "writeFleetYAML [''policy'', ''detection'', ''incident_response''] (\<lambda>_. True) Map.empty []
     = ([''chainguard-all.yml'' \<mapsto> []], None)
   \<and> fst (writeFleetYAML [''detection'', ''policy'', ''incident_response''] (\<lambda>_. True) Map.empty
          exampleQueries) ''chainguard-all.yml''
       = Some (spec_document exampleQueries 0)
   \<and> fst (writeFleetYAML [''detection'', ''policy'', ''incident_response'']
          (\<lambda>n. n \<noteq> ''chainguard-policy.yml'') [''chainguard-all.yml'' \<mapsto> [''stale'']]
          exampleQueries) ''chainguard-all.yml''
       = Some (spec_document exampleQueries 0)
   \<and> fst (writeFleetYAML [''detection'', ''policy'', ''incident_response'']
          (\<lambda>n. n \<noteq> ''chainguard-detection.yml'') [''chainguard-all.yml'' \<mapsto> [''stale'']]
          exampleQueries) ''chainguard-all.yml''
       = Some [''stale'']"
proof -
  have s3: "snd (writeFleetYAML [''detection'', ''policy'', ''incident_response'']
          (\<lambda>n. n \<noteq> ''chainguard-policy.yml'') [''chainguard-all.yml'' \<mapsto> [''stale'']]
          exampleQueries) = None"
    by (simp add: writeFleetYAML_succeeds nonEmptyGroup_known categories_def example_groups
        categoryFile_known)
  have s4: "snd (writeFleetYAML [''detection'', ''policy'', ''incident_response'']
          (\<lambda>n. n \<noteq> ''chainguard-detection.yml'') [''chainguard-all.yml'' \<mapsto> [''stale'']]
          exampleQueries) \<noteq> None"
    by (simp add: writeFleetYAML_succeeds nonEmptyGroup_known categories_def example_groups
        categoryFile_known)
  have n4: "''all'' \<notin> set [''detection'', ''policy'', ''incident_response'']"
    by simp
  note t1 = combined_document_written_on_success
      [of "[''policy'', ''detection'', ''incident_response'']" "\<lambda>_. True" Map.empty "[]"]
  note t2 = combined_document_written_on_success
      [of "[''detection'', ''policy'', ''incident_response'']" "\<lambda>_. True" Map.empty exampleQueries]
  note t3 = combined_document_written_on_success
      [of "[''detection'', ''policy'', ''incident_response'']" "\<lambda>n. n \<noteq> ''chainguard-policy.yml''"
        "[''chainguard-all.yml'' \<mapsto> [''stale'']]" exampleQueries]
  note t4 = combined_document_written_on_success
      [of "[''detection'', ''policy'', ''incident_response'']"
        "\<lambda>n. n \<noteq> ''chainguard-detection.yml''"
        "[''chainguard-all.yml'' \<mapsto> [''stale'']]" exampleQueries]
  from t1 have a: "writeFleetYAML [''policy'', ''detection'', ''incident_response''] (\<lambda>_. True)
      Map.empty [] = ([''chainguard-all.yml'' \<mapsto> []], None)"
    by simp
  from t2 have b: "fst (writeFleetYAML [''detection'', ''policy'', ''incident_response'']
      (\<lambda>_. True) Map.empty exampleQueries) ''chainguard-all.yml''
       = Some (spec_document exampleQueries 0)"
    by (simp add: example_succeeds)
  from t3 s3 have c: "fst (writeFleetYAML [''detection'', ''policy'', ''incident_response'']
          (\<lambda>n. n \<noteq> ''chainguard-policy.yml'') [''chainguard-all.yml'' \<mapsto> [''stale'']]
          exampleQueries) ''chainguard-all.yml''
       = Some (spec_document exampleQueries 0)"
    by blast
  from t4 s4 n4 have d: "fst (writeFleetYAML [''detection'', ''policy'', ''incident_response'']
          (\<lambda>n. n \<noteq> ''chainguard-detection.yml'') [''chainguard-all.yml'' \<mapsto> [''stale'']]
          exampleQueries) ''chainguard-all.yml''
       = [''chainguard-all.yml'' \<mapsto> [''stale'']] ''chainguard-all.yml''"
    by blast
  from a b c d show ?thesis by simp
qed

text \<open>
  C10 as stated fails: the combined document is not created in every run that reaches the
  writer. With detection records and a 5-minute document that cannot be created, the
  writer returns the error after writing the documents of the categories, and
  \<^verbatim>\<open>chainguard-all.yml\<close> is not created; one that exists is not overwritten.
\<close>

theorem combined_document_counterexample:
  "snd (writeFleetYAML [''detection'', ''policy'', ''incident_response'']
          (\<lambda>n. n \<noteq> ''chainguard-detection-5min.yml'') Map.empty exampleQueries)
     = Some (CreateError ''chainguard-detection-5min.yml'')
   \<and> fst (writeFleetYAML [''detection'', ''policy'', ''incident_response'']
          (\<lambda>n. n \<noteq> ''chainguard-detection-5min.yml'') Map.empty exampleQueries)
        ''chainguard-all.yml'' = None
   \<and> fst (writeFleetYAML [''detection'', ''policy'', ''incident_response'']
          (\<lambda>n. n \<noteq> ''chainguard-detection-5min.yml'') Map.empty exampleQueries)
        ''chainguard-detection.yml'' = Some (writeQueries [] 0 [exampleDetection] 0)
   \<and> fst (writeFleetYAML [''detection'', ''policy'', ''incident_response'']
          (\<lambda>n. n \<noteq> ''chainguard-detection-5min.yml'') [''chainguard-all.yml'' \<mapsto> [''stale'']]
          exampleQueries)
        ''chainguard-all.yml'' = Some [''stale'']"
  by code_simp

text \<open>
  C3. On records of the three categories, a run that succeeds produces the same directory
  whatever the order in which Go visits the groups, and a second run on the same records,
  started from the output of the first, leaves every document as it is. The output is
  \<open>spec_output\<close>, in which every document written is a function of the records alone.
\<close>

theorem writeFleetYAML_deterministic:
  assumes "list_all (\<lambda>qu. Category qu \<in> set categories) qs"
    and "rangeOrder qs visit1"
    and "rangeOrder qs visit2"
    and "snd (writeFleetYAML visit1 ok fs0 qs) = None"
  shows "writeFleetYAML visit2 ok fs0 qs = writeFleetYAML visit1 ok fs0 qs
         \<and> writeFleetYAML visit2 ok (fst (writeFleetYAML visit1 ok fs0 qs)) qs
             = writeFleetYAML visit1 ok fs0 qs
         \<and> fst (writeFleetYAML visit1 ok fs0 qs) = spec_output fs0 qs"
proof -
  from assms(2,3) have sv: "set visit2 = set visit1" by (simp add: rangeOrder_def)
  have s2: "snd (writeFleetYAML visit2 ok fs qs) = None" for fs
    using assms(4) by (simp add: writeFleetYAML_succeeds sv)
  have out: "fst (writeFleetYAML v ok fs qs) = spec_output fs qs"
    if "rangeOrder qs v" "snd (writeFleetYAML v ok fs qs) = None" for v fs
  proof -
    from that(2) have "writeFleetYAML v ok fs qs = (fst (writeFleetYAML v ok fs qs), None)"
      by (metis prod.collapse)
    from writeFleetYAML_output [OF assms(1) that(1) this] show ?thesis .
  qed
  have o1: "fst (writeFleetYAML visit1 ok fs0 qs) = spec_output fs0 qs"
    by (rule out [OF assms(2,4)])
  have o2: "fst (writeFleetYAML visit2 ok fs0 qs) = spec_output fs0 qs"
    by (rule out [OF assms(3) s2])
  have o3: "fst (writeFleetYAML visit2 ok (spec_output fs0 qs) qs) = spec_output fs0 qs"
    using out [OF assms(3) s2, of "spec_output fs0 qs"] by (simp add: spec_output_idem)
  show ?thesis
    using o1 o2 o3 s2 assms(4) by (simp add: prod_eq_iff)
qed

theorem writeFleetYAML_deterministic_witness:
  "writeFleetYAML [''incident_response'', ''policy'', ''detection''] (\<lambda>_. True) Map.empty
       exampleQueries
     = writeFleetYAML [''detection'', ''policy'', ''incident_response''] (\<lambda>_. True) Map.empty
         exampleQueries"
  using writeFleetYAML_deterministic [of exampleQueries
      "[''detection'', ''policy'', ''incident_response'']"
      "[''incident_response'', ''policy'', ''detection'']" "\<lambda>_. True" Map.empty,
      OF example_known example_order1 example_order2 example_succeeds]
  by blast

subsection \<open>The loop over the lines\<close>

text \<open>One turn of the loop, case by case.\<close>

lemma scanLine_body:
  "\<not> inHeader st \<Longrightarrow> scanLine st line = st\<lparr>sqlLines := sqlLines st @ [line]\<rparr>"
  by (simp add: scanLine_def collectSQL_def)

lemma scanLine_blank:
  "inHeader st \<Longrightarrow> \<not> isComment line \<Longrightarrow> isBlank line \<Longrightarrow>
   scanLine st line = st\<lparr>sqlLines := sqlLines st @ [line]\<rparr>"
  by (simp add: scanLine_def collectSQL_def isComment_def isBlank_def)

lemma scanLine_first_query_line:
  "inHeader st \<Longrightarrow> \<not> isComment line \<Longrightarrow> \<not> isBlank line \<Longrightarrow>
   scanLine st line = st\<lparr>inHeader := False, sqlLines := sqlLines st @ [line]\<rparr>"
  by (simp add: scanLine_def collectSQL_def isComment_def isBlank_def)

lemma scanLine_comment_frame:
  "inHeader st \<Longrightarrow> isComment line \<Longrightarrow>
   inHeader (scanLine st line) \<and> sqlLines (scanLine st line) = sqlLines st"
  by (simp add: scanLine_def collectSQL_def isComment_def Let_def split: option.splits)


lemma scanLine_frame:
  "Name (q (scanLine st line)) = Name (q st)
   \<and> Category (q (scanLine st line)) = Category (q st)
   \<and> Subcategory (q (scanLine st line)) = Subcategory (q st)
   \<and> Level (q (scanLine st line)) = Level (q st)
   \<and> Query (q (scanLine st line)) = Query (q st)"
  by (simp add: scanLine_def collectSQL_def Let_def split: option.splits)

lemma foldl_scanLine_body:
  "\<not> inHeader st \<Longrightarrow> foldl scanLine st ls = st\<lparr>sqlLines := sqlLines st @ ls\<rparr>"
  by (induction ls arbitrary: st) (simp_all add: scanLine_body)

lemma foldl_scanLine_split:
  "inHeader st \<Longrightarrow>
   foldl scanLine st ls =
     (let st' = foldl scanLine st (headerLines ls) in
      if queryLines ls = [] then st'
      else st'\<lparr>inHeader := False, sqlLines := sqlLines st' @ queryLines ls\<rparr>)
   \<and> inHeader (foldl scanLine st (headerLines ls))"
proof (induction ls arbitrary: st)
  case Nil
  then show ?case by (simp add: headerLines_def queryLines_def)
next
  case (Cons l ls)
  show ?case
  proof (cases "isComment l \<or> isBlank l")
    case False
    with Cons.prems show ?thesis
      by (simp add: headerLines_def queryLines_def scanLine_first_query_line foldl_scanLine_body)
  next
    case True
    have "inHeader (scanLine st l)"
    proof (cases "isComment l")
      case True
      with Cons.prems show ?thesis by (simp add: scanLine_comment_frame)
    next
      case False
      with True Cons.prems show ?thesis by (simp add: scanLine_blank)
    qed
    from Cons.IH [OF this] True show ?thesis
      by (simp add: headerLines_def queryLines_def Let_def)
  qed
qed

lemma header_sqlLines:
  "inHeader st \<Longrightarrow>
   sqlLines (foldl scanLine st (headerLines ls))
     = sqlLines st @ filter (\<lambda>l. \<not> isComment l) (headerLines ls)"
proof (induction ls arbitrary: st)
  case Nil
  then show ?case by (simp add: headerLines_def)
next
  case (Cons l ls)
  show ?case
  proof (cases "isComment l \<or> isBlank l")
    case False
    then show ?thesis by (simp add: headerLines_def)
  next
    case True
    show ?thesis
    proof (cases "isComment l")
      case c: True
      with Cons.prems have "inHeader (scanLine st l)" "sqlLines (scanLine st l) = sqlLines st"
        by (simp_all add: scanLine_comment_frame)
      with Cons.IH [of "scanLine st l"] True c show ?thesis
        by (simp add: headerLines_def)
    next
      case c: False
      with True Cons.prems have "scanLine st l = st\<lparr>sqlLines := sqlLines st @ [l]\<rparr>"
        by (simp add: scanLine_blank)
      with Cons.IH [of "st\<lparr>sqlLines := sqlLines st @ [l]\<rparr>"] Cons.prems True c show ?thesis
        by (simp add: headerLines_def)
    qed
  qed
qed



lemma parseQuery_scanned:
  "parseQuery U dirs base category (Some (scanned, scanErr)) =
     (let st = foldl scanLine (scanStart (recordBeforeScan U dirs base category)) scanned;
          q4 = (q st)\<lparr>Query := trimSpace (join (dropWhile isBlank (sqlLines st)) [newline])\<rparr>
      in (if Description q4 = [] then q4\<lparr>Description := Name q4\<rparr> else q4, scanErr))"
proof -
  have "(\<lambda>l. trimSpace l = []) = isBlank"
    by (simp add: isBlank_def fun_eq_iff)
  then show ?thesis
    by (cases dirs; cases "levelRegex base")
       (auto simp: parseQuery_def recordBeforeScan_def scanStart_def Let_def emptyQuery_def)
qed

lemma scanStart_simps:
  "q (scanStart q0) = q0" "sqlLines (scanStart q0) = []"
  "firstComment (scanStart q0)" "inHeader (scanStart q0)"
  by (simp_all add: scanStart_def)

lemma headerLines_queryLines: "headerLines ls @ queryLines ls = ls"
  by (simp add: headerLines_def queryLines_def)

lemma scanned_sqlLines:
  "sqlLines (foldl scanLine (scanStart q0) ls)
     = filter (\<lambda>l. \<not> isComment l) (headerLines ls) @ queryLines ls"
proof -
  have h: "inHeader (scanStart q0)" and s: "sqlLines (scanStart q0) = []"
    by (simp_all add: scanStart_def)
  from foldl_scanLine_split [OF h, of ls] header_sqlLines [OF h, of ls] s show ?thesis
    by (simp add: Let_def)
qed

lemma header_rest_blank: "list_all isBlank (filter (\<lambda>l. \<not> isComment l) (headerLines ls))"
  by (induction ls) (auto simp: headerLines_def)

lemma queryLines_start:
  "queryLines ls = [] \<or> (\<not> isBlank (hd (queryLines ls)) \<and> \<not> isComment (hd (queryLines ls)))"
  using hd_dropWhile [of "\<lambda>l. isComment l \<or> isBlank l" ls]
  by (auto simp: queryLines_def)

lemma dropWhile_blank_sql:
  "dropWhile isBlank (filter (\<lambda>l. \<not> isComment l) (headerLines ls) @ queryLines ls) = queryLines ls"
proof -
  have "dropWhile isBlank (bs @ r) = r" if "list_all isBlank bs" "r = [] \<or> \<not> isBlank (hd r)"
    for bs r :: "string list"
    using that by (induction bs) (auto simp: dropWhile_eq_self_iff)
  from this [OF header_rest_blank] queryLines_start [of ls] show ?thesis by blast
qed




text \<open>
  C1, as amended. The loop appends every line to the SQL lines unless it is a comment line
  read in header mode, whether or not that comment is a directive or the description;
  header mode ends at the first line that is neither blank nor a comment. So the lines
  kept are the blank lines of the header and everything from that first line on, comments
  included, and the body is the lines from that line on, joined by line feeds, with the
  white space at both ends removed.
\<close>

theorem body_is_lines_after_header:
  "sqlLines (foldl scanLine (scanStart q0) ls)
     = filter (\<lambda>l. \<not> isComment l) (headerLines ls) @ queryLines ls
   \<and> headerLines ls @ queryLines ls = ls
   \<and> list_all isBlank (filter (\<lambda>l. \<not> isComment l) (headerLines ls))
   \<and> Query (fst (parseQuery U dirs base category (Some (ls, err))))
       = trimSpace (join (queryLines ls) [newline])"
  by (simp add: scanned_sqlLines headerLines_queryLines header_rest_blank parseQuery_scanned
      Let_def dropWhile_blank_sql)

theorem body_is_lines_after_header_witness:
  "(\<forall>U. Query (fst (parseQuery U [] ''example.sql'' ''detection'' (Some (exampleFile, None))))
           = ''SELECT 1 -- first'' @ [newline] @ ''-- tags: later'' @ [newline] @ ''FROM t;'')
   \<and> sqlLines (foldl scanLine (scanStart emptyQuery) exampleFile)
     = ['''', ''SELECT 1 -- first'', ''-- tags: later'', ''FROM t;'', '''']"
proof -
  have h: "filter (\<lambda>l. \<not> isComment l) (headerLines exampleFile) = ['''']"
    by code_simp
  have r: "queryLines exampleFile = [''SELECT 1 -- first'', ''-- tags: later'', ''FROM t;'', '''']"
    by code_simp
  have t: "trimSpace (join [''SELECT 1 -- first'', ''-- tags: later'', ''FROM t;'', ''''] [newline])
     = ''SELECT 1 -- first'' @ [newline] @ ''-- tags: later'' @ [newline] @ ''FROM t;''"
    by code_simp
  have "Query (fst (parseQuery U [] ''example.sql'' ''detection'' (Some (exampleFile, None))))
           = ''SELECT 1 -- first'' @ [newline] @ ''-- tags: later'' @ [newline] @ ''FROM t;''
      \<and> sqlLines (foldl scanLine (scanStart emptyQuery) exampleFile)
           = ['''', ''SELECT 1 -- first'', ''-- tags: later'', ''FROM t;'', '''']" for U
    using body_is_lines_after_header
      [of emptyQuery exampleFile U "[]" "''example.sql''" "''detection''" None]
    by (simp only: h r t) simp
  then show ?thesis by blast
qed

text \<open>
  C1 as stated fails: a comment line of the header that is neither a directive nor the
  description (an empty comment, \<^verbatim>\<open>-- references:\<close> and the line below it) is not appended
  to the body, while the claim keeps every line that was not consumed as a directive or
  as the description.
\<close>

theorem claimed_body_counterexample:
  "\<forall>U. Query (fst (parseQuery U [] ''example.sql'' ''detection'' (Some (exampleFile, None))))
         = ''SELECT 1 -- first'' @ [newline] @ ''-- tags: later'' @ [newline] @ ''FROM t;''
       \<and> spec_claimed_body exampleFile
         = ''--'' @ [newline] @ ''-- references:'' @ [newline] @ ''--   * https://example.com/''
           @ [newline] @ [newline] @ ''SELECT 1 -- first'' @ [newline] @ ''-- tags: later''
           @ [newline] @ ''FROM t;''
       \<and> Query (fst (parseQuery U [] ''example.sql'' ''detection'' (Some (exampleFile, None))))
         \<noteq> spec_claimed_body exampleFile"
proof
  fix U
  have a: "Query (fst (parseQuery U [] ''example.sql'' ''detection'' (Some (exampleFile, None))))
         = ''SELECT 1 -- first'' @ [newline] @ ''-- tags: later'' @ [newline] @ ''FROM t;''"
    by code_simp
  have b: "spec_claimed_body exampleFile
         = ''--'' @ [newline] @ ''-- references:'' @ [newline] @ ''--   * https://example.com/''
           @ [newline] @ [newline] @ ''SELECT 1 -- first'' @ [newline] @ ''-- tags: later''
           @ [newline] @ ''FROM t;''"
    by code_simp
  show "Query (fst (parseQuery U [] ''example.sql'' ''detection'' (Some (exampleFile, None))))
         = ''SELECT 1 -- first'' @ [newline] @ ''-- tags: later'' @ [newline] @ ''FROM t;''
       \<and> spec_claimed_body exampleFile
         = ''--'' @ [newline] @ ''-- references:'' @ [newline] @ ''--   * https://example.com/''
           @ [newline] @ [newline] @ ''SELECT 1 -- first'' @ [newline] @ ''-- tags: later''
           @ [newline] @ ''FROM t;''
       \<and> Query (fst (parseQuery U [] ''example.sql'' ''detection'' (Some (exampleFile, None))))
         \<noteq> spec_claimed_body exampleFile"
    unfolding a b by simp
qed



subsection \<open>Header blocks\<close>

text \<open>White space and tokens.\<close>

lemma reSpace_asciiSpace: "reSpace c \<Longrightarrow> asciiSpace c"
  by (auto simp: reSpace_def asciiSpace_def)

lemma spaceWidth_zero_head: "spaceWidth (c # cs) = 0 \<Longrightarrow> \<not> asciiSpace c"
  by (auto split: if_splits)

lemma no_space_chars: "spec_no_space t \<Longrightarrow> c \<in> set t \<Longrightarrow> \<not> asciiSpace c"
  by (induction t) (auto dest: spaceWidth_zero_head simp del: spaceWidth.simps)

lemma no_space_drop: "spec_no_space t \<Longrightarrow> i < length t \<Longrightarrow> spaceWidth (drop i t) = 0"
proof (induction t arbitrary: i)
  case Nil
  then show ?case by simp
next
  case (Cons c cs)
  then show ?case by (cases i) (simp_all del: spaceWidth.simps)
qed

lemma no_space_last: "spec_no_space t \<Longrightarrow> lastSpaceWidth t = 0"
proof (cases "t = []")
  case True
  then show ?thesis by (simp add: lastSpaceWidth_def)
next
  case False
  assume ns: "spec_no_space t"
  from False have "last t \<in> set t" by simp
  with ns have a: "\<not> asciiSpace (last t)" by (rule no_space_chars)
  have b: "spaceWidth (drop (length t - 2) t) = 0"
    using no_space_drop [OF ns, of "length t - 2"] False by (cases t) simp_all
  have c: "spaceWidth (drop (length t - 3) t) = 0"
    using no_space_drop [OF ns, of "length t - 3"] False by (cases t) simp_all
  from a b c show ?thesis by (simp add: lastSpaceWidth_def Let_def)
qed

lemma trimSpace_unchanged: "spaceWidth s = 0 \<Longrightarrow> lastSpaceWidth s = 0 \<Longrightarrow> trimSpace s = s"
  by (simp add: trimSpace_def trimLeftSpace.simps trimRightSpace.simps)

lemma trimSpace_token: "spec_token t \<Longrightarrow> trimSpace t = t"
  using no_space_drop [of t 0] no_space_last [of t]
  by (auto simp: spec_token_def intro: trimSpace_unchanged)

lemma trimLeftSpace_space: "trimLeftSpace (CHR '' '' # s) = trimLeftSpace s"
  by (subst trimLeftSpace.simps) (simp add: asciiSpace_def)

lemma trimSpace_space: "trimSpace (CHR '' '' # s) = trimSpace s"
  by (simp add: trimSpace_def trimLeftSpace_space)

lemma spaceWidth_append_space:
  "u \<noteq> [] \<Longrightarrow> spaceWidth (u @ CHR '' '' # v) = spaceWidth u"
proof -
  assume "u \<noteq> []"
  then obtain a u1 where 1: "u = a # u1" by (cases u) auto
  show ?thesis
  proof (cases u1)
    case Nil
    with 1 show ?thesis by (cases v) simp_all
  next
    case (Cons b u2)
    with 1 show ?thesis by (cases u2) simp_all
  qed
qed

lemma spaceWidth_before_space:
  "u \<noteq> [] \<Longrightarrow> spaceWidth u = 0 \<Longrightarrow> spaceWidth (u @ CHR '' '' # v) = 0"
  by (simp add: spaceWidth_append_space del: spaceWidth.simps)

lemma fieldsFrom_space: "fieldsFrom cur (CHR '' '' # v) = (if cur = [] then [] else [cur]) @ fieldsFrom [] v"
  by (simp add: asciiSpace_def)

lemma fieldsFrom_token_space:
  "spec_no_space t \<Longrightarrow>
   fieldsFrom cur (t @ CHR '' '' # v) = (if cur @ t = [] then [] else [cur @ t]) @ fieldsFrom [] v"
proof (induction t arbitrary: cur)
  case Nil
  then show ?case by (simp add: fieldsFrom_space del: fieldsFrom.simps)
next
  case (Cons c cs)
  then have "spaceWidth ((c # cs) @ CHR '' '' # v) = 0"
    by (intro spaceWidth_before_space) (simp_all del: spaceWidth.simps)
  then have "fieldsFrom cur ((c # cs) @ CHR '' '' # v) = fieldsFrom (cur @ [c]) (cs @ CHR '' '' # v)"
    by (simp del: spaceWidth.simps)
  with Cons show ?case by (simp del: spaceWidth.simps fieldsFrom.simps)
qed

lemma fieldsFrom_token:
  "spec_no_space t \<Longrightarrow> fieldsFrom cur t = (if cur @ t = [] then [] else [cur @ t])"
proof (induction t arbitrary: cur)
  case Nil
  then show ?case by simp
next
  case (Cons c cs)
  then have "fieldsFrom cur (c # cs) = fieldsFrom (cur @ [c]) cs"
    by (simp del: spaceWidth.simps)
  with Cons show ?case by (simp del: spaceWidth.simps fieldsFrom.simps)
qed

lemma stringFields_join: "list_all spec_token ts \<Longrightarrow> stringFields (join ts '' '') = ts"
proof (induction ts "'' ''" rule: join.induct)
  case 1
  then show ?case by (simp add: stringFields_def)
next
  case (2 x)
  then show ?case by (simp add: stringFields_def fieldsFrom_token spec_token_def)
next
  case (3 x y ys)
  then have "fieldsFrom [] (x @ CHR '' '' # join (y # ys) '' '') = x # fieldsFrom [] (join (y # ys) '' '')"
    by (simp add: fieldsFrom_token_space spec_token_def del: join.simps)
  with 3 show ?case by (simp add: stringFields_def del: fieldsFrom.simps)
qed

lemma stringFields_space: "stringFields '' '' = []"
  by (simp add: stringFields_def asciiSpace_def)

text \<open>Decimal digits.\<close>

lemma decimalValue_snoc: "decimalValue (ds @ [d]) = 10 * decimalValue ds + digitVal d"
  by (simp add: decimalValue_def)

lemma digit_not_space: "isDigit c \<Longrightarrow> \<not> reSpace c"
  by (auto simp: isDigit_def reSpace_def)

lemma digit_char:
  "0 \<le> m \<Longrightarrow> m < 10 \<Longrightarrow> digitVal (char_of (48 + m)) = m \<and> isDigit (char_of (48 + m))
     \<and> \<not> reSpace (char_of (48 + m))"
proof -
  assume "0 \<le> m" "m < 10"
  then have "m \<in> {0, 1, 2, 3, 4, 5, 6, 7, 8, 9}" by (simp, arith)
  then have "digitVal (char_of (48 + m)) = m \<and> isDigit (char_of (48 + m))"
    by (elim insertE emptyE) (simp_all add: digitVal_def isDigit_def)
  then show ?thesis by (simp add: digit_not_space)
qed

lemma decimalDigits_roundtrip:
  "0 \<le> n \<Longrightarrow>
   decimalValue (decimalDigits n) = n \<and> list_all isDigit (decimalDigits n)
   \<and> decimalDigits n \<noteq> [] \<and> \<not> reSpace (hd (decimalDigits n))"
proof (induction n rule: decimalDigits.induct)
  case (1 n)
  show ?case
  proof (cases "n < 10")
    case True
    with 1(2) digit_char [of n] show ?thesis
      by (simp add: decimalDigits.simps [of n] decimalValue_def)
  next
    case False
    with 1 have ih: "decimalValue (decimalDigits (n div 10)) = n div 10"
      "list_all isDigit (decimalDigits (n div 10))" "decimalDigits (n div 10) \<noteq> []"
      "\<not> reSpace (hd (decimalDigits (n div 10)))"
      by simp_all
    have "0 \<le> n mod 10" "n mod 10 < 10" by simp_all
    from digit_char [OF this] False ih show ?thesis
      by (simp add: decimalDigits.simps [of n] decimalValue_snoc)
  qed
qed

text \<open>The directive expressions on rendered lines.\<close>

lemma directiveRest_rendered:
  "directiveRest ''tags:'' (''-- tags: '' @ x) = Some (CHR '' '' # x)"
  "directiveRest ''tags:'' (''-- platform: '' @ x) = None"
  "directiveRest ''tags:'' (''-- interval: '' @ x) = None"
  "directiveRest ''platform:'' (''-- platform: '' @ x) = Some (CHR '' '' # x)"
  "directiveRest ''platform:'' (''-- interval: '' @ x) = None"
  "directiveRest ''interval:'' (''-- interval: '' @ x) = Some (CHR '' '' # x)"
  by (simp_all add: directiveRest_def hasPrefix_def reSpace_def)

lemma directiveRest_free_text:
  "d \<noteq> [] \<Longrightarrow> \<not> reSpace (hd d) \<Longrightarrow> \<not> hasPrefix d key \<Longrightarrow>
   directiveRest key (''-- '' @ d) = None"
  by (cases d) (simp_all add: directiveRest_def hasPrefix_def reSpace_def)

lemma captureText_after_space:
  "x \<noteq> [] \<Longrightarrow> \<not> reSpace (hd x) \<Longrightarrow> newline \<notin> set x \<Longrightarrow>
   captureText (CHR '' '' # x) = Some x"
  by (cases x) (simp_all add: captureText_def reSpace_def)

lemma captureText_one_space: "captureText '' '' = Some '' ''"
  by (simp add: captureText_def reSpace_def newline_def)

lemma captureDigits_after_space:
  "x \<noteq> [] \<Longrightarrow> \<not> reSpace (hd x) \<Longrightarrow> list_all isDigit x \<Longrightarrow>
   captureDigits (CHR '' '' # x) = Some x"
  by (cases x) (simp_all add: captureDigits_def reSpace_def)

lemma asciiSpace_newline: "asciiSpace newline"
  by (simp add: asciiSpace_def newline_def)

lemma token_facts:
  "spec_token t \<Longrightarrow> t \<noteq> [] \<and> \<not> reSpace (hd t) \<and> newline \<notin> set t"
proof -
  assume t: "spec_token t"
  then have ne: "t \<noteq> []" and ns: "spec_no_space t" by (simp_all add: spec_token_def)
  from ne have "hd t \<in> set t" by simp
  with ns have "\<not> asciiSpace (hd t)" by (rule no_space_chars)
  then have "\<not> reSpace (hd t)" using reSpace_asciiSpace by blast
  moreover have "newline \<notin> set t" using no_space_chars [OF ns] asciiSpace_newline by blast
  ultimately show ?thesis using ne by simp
qed

lemma join_tokens_facts:
  "list_all spec_token ts \<Longrightarrow> ts \<noteq> [] \<Longrightarrow>
   join ts '' '' \<noteq> [] \<and> \<not> reSpace (hd (join ts '' '')) \<and> newline \<notin> set (join ts '' '')"
proof (induction ts "'' ''" rule: join.induct)
  case 1
  then show ?case by simp
next
  case (2 x)
  then show ?case using token_facts [of x] by simp
next
  case (3 x y ys)
  then show ?case using token_facts [of x] by (simp add: newline_def)
qed

lemma tagsRegex_rendered:
  "list_all spec_token ts \<Longrightarrow>
   tagsRegex (spec_render (TagsLine ts)) = Some (if ts = [] then '' '' else join ts '' '')"
proof (cases "ts = []")
  case True
  then show ?thesis
    using directiveRest_rendered(1) [of "[]"] by (simp add: tagsRegex_def captureText_one_space)
next
  case False
  assume "list_all spec_token ts"
  from join_tokens_facts [OF this False] False show ?thesis
    using directiveRest_rendered(1) [of "join ts '' ''"]
    by (simp add: tagsRegex_def captureText_after_space del: join.simps)
qed

lemma platformRegex_rendered:
  "spec_token p \<Longrightarrow>
   tagsRegex (spec_render (PlatformLine p)) = None
   \<and> platformRegex (spec_render (PlatformLine p)) = Some p"
  using token_facts [of p] directiveRest_rendered(2,4) [of p]
  by (simp add: tagsRegex_def platformRegex_def captureText_after_space)

lemma intervalRegex_rendered:
  "0 \<le> n \<Longrightarrow>
   tagsRegex (spec_render (IntervalLine n)) = None
   \<and> platformRegex (spec_render (IntervalLine n)) = None
   \<and> intervalRegex (spec_render (IntervalLine n)) = Some (decimalDigits n)"
  using decimalDigits_roundtrip [of n] directiveRest_rendered(3,5,6) [of "decimalDigits n"]
  by (simp add: tagsRegex_def platformRegex_def intervalRegex_def formatInt_def
      captureDigits_after_space)

lemma description_rendered:
  assumes "spec_valid (DescriptionLine d)"
  shows "tagsRegex (spec_render (DescriptionLine d)) = None
   \<and> platformRegex (spec_render (DescriptionLine d)) = None
   \<and> intervalRegex (spec_render (DescriptionLine d)) = None
   \<and> trimSpace (trimPrefix (spec_render (DescriptionLine d)) ''--'') = d"
proof -
  from assms have ne: "d \<noteq> []" and w: "spaceWidth d = 0" and l: "lastSpaceWidth d = 0"
    and k: "\<not> hasPrefix d ''tags:''" "\<not> hasPrefix d ''platform:''" "\<not> hasPrefix d ''interval:''"
    by simp_all
  from ne w have "\<not> asciiSpace (hd d)" by (cases d) (auto dest: spaceWidth_zero_head)
  then have s: "\<not> reSpace (hd d)" using reSpace_asciiSpace by blast
  have "trimPrefix (''-- '' @ d) ''--'' = CHR '' '' # d"
    by (simp add: trimPrefix_def hasPrefix_def)
  then have "trimSpace (trimPrefix (''-- '' @ d) ''--'') = d"
    by (simp only: trimSpace_space trimSpace_unchanged [OF w l])
  with directiveRest_free_text [OF ne s] k show ?thesis
    by (simp add: tagsRegex_def platformRegex_def intervalRegex_def)
qed

lemma isComment_rendered: "hasPrefix (spec_render h) ''--''"
  by (cases h) (simp_all add: hasPrefix_def)

lemma sscanInt_digits: "0 \<le> n \<Longrightarrow> n \<le> maxInt \<Longrightarrow> sscanInt (decimalDigits n) x = n"
  using decimalDigits_roundtrip [of n] by (simp add: sscanInt_def)

lemma scanLine_rendered:
  assumes h: "inHeader st" and v: "spec_valid line"
  shows "scanLine st (spec_render line) = headerEffect st line"
proof (cases line)
  case (DescriptionLine d)
  with v have k: "d \<noteq> []" "\<not> hasPrefix d ''references:''" "\<not> hasPrefix d ''false positives:''"
    by simp_all
  from description_rendered [of d] v DescriptionLine h k isComment_rendered [of line]
  show ?thesis
    by (simp add: scanLine_def collectSQL_def Let_def del: spec_render.simps spec_valid.simps)
next
  case (TagsLine ts)
  with v have t: "list_all spec_token ts" by simp
  from tagsRegex_rendered [OF t] h TagsLine isComment_rendered [of line]
  show ?thesis
    by (simp add: scanLine_def Let_def stringFields_join [OF t] stringFields_space
        del: spec_render.simps)
next
  case (PlatformLine p)
  with v have t: "spec_token p" by simp
  from platformRegex_rendered [OF t] h PlatformLine isComment_rendered [of line]
  show ?thesis
    by (simp add: scanLine_def Let_def trimSpace_token [OF t] del: spec_render.simps)
next
  case (IntervalLine n)
  with v have n: "0 \<le> n" "n \<le> maxInt" by simp_all
  from intervalRegex_rendered [OF n(1)] h IntervalLine isComment_rendered [of line]
  show ?thesis
    by (simp add: scanLine_def Let_def sscanInt_digits [OF n] del: spec_render.simps)
qed

lemma headerEffect_inHeader: "inHeader (headerEffect st line) = inHeader st"
  by (cases line) simp_all

lemma foldl_headerEffect_inHeader: "inHeader (foldl headerEffect st hs) = inHeader st"
  by (induction hs arbitrary: st) (simp_all add: headerEffect_inHeader)

lemma foldl_rendered:
  "inHeader st \<Longrightarrow> list_all spec_valid hs \<Longrightarrow>
   foldl scanLine st (map spec_render hs) = foldl headerEffect st hs"
proof (induction hs arbitrary: st)
  case Nil
  then show ?case by simp
next
  case (Cons a hs)
  then have "scanLine st (spec_render a) = headerEffect st a"
    by (simp add: scanLine_rendered)
  moreover from Cons.prems have "inHeader (headerEffect st a)"
    by (simp add: headerEffect_inHeader)
  ultimately show ?case using Cons by simp
qed

lemma headerEffect_other_fields:
  "Tags (q (headerEffect st (DescriptionLine d))) = Tags (q st)"
  "Tags (q (headerEffect st (PlatformLine p))) = Tags (q st)"
  "Tags (q (headerEffect st (IntervalLine n))) = Tags (q st)"
  "Platform (q (headerEffect st (DescriptionLine d))) = Platform (q st)"
  "Platform (q (headerEffect st (TagsLine ts))) = Platform (q st)"
  "Platform (q (headerEffect st (IntervalLine n))) = Platform (q st)"
  "Interval (q (headerEffect st (DescriptionLine d))) = Interval (q st)"
  "Interval (q (headerEffect st (TagsLine ts))) = Interval (q st)"
  "Interval (q (headerEffect st (PlatformLine p))) = Interval (q st)"
  "Description (q (headerEffect st (TagsLine ts))) = Description (q st)"
  "Description (q (headerEffect st (PlatformLine p))) = Description (q st)"
  "Description (q (headerEffect st (IntervalLine n))) = Description (q st)"
  by simp_all

lemma headerEffect_own_field:
  "Tags (q (headerEffect st (TagsLine ts))) = ts"
  "Platform (q (headerEffect st (PlatformLine p))) = normalizePlatform p"
  "Interval (q (headerEffect st (IntervalLine n))) = n"
  "Description (q (headerEffect st (DescriptionLine d)))
     = (if firstComment st then d else Description (q st))"
  by simp_all

lemma headerEffect_tags:
  "TagsLine ts \<in> set hs \<Longrightarrow> \<forall>ts'. TagsLine ts' \<in> set hs \<longrightarrow> ts' = ts \<Longrightarrow>
   Tags (q (foldl headerEffect st hs)) = ts"
proof (induction hs rule: rev_induct)
  case Nil
  then show ?case by simp
next
  case (snoc a hs)
  have uniq: "\<forall>ts'. TagsLine ts' \<in> set hs \<longrightarrow> ts' = ts"
    using snoc.prems(2) by auto
  show ?case
  proof (cases "\<exists>ts'. a = TagsLine ts'")
    case True
    then obtain ts' where a: "a = TagsLine ts'" by blast
    with snoc.prems(2) have "ts' = ts" by auto
    with a show ?thesis by (simp only: foldl_append foldl.simps headerEffect_own_field)
  next
    case False
    with snoc.prems(1) have mem: "TagsLine ts \<in> set hs" by auto
    from False have "Tags (q (headerEffect (foldl headerEffect st hs) a))
        = Tags (q (foldl headerEffect st hs))"
      by (cases a) (simp_all only: headerEffect_other_fields, blast)
    with snoc.IH [OF mem uniq] show ?thesis by (simp only: foldl_append foldl.simps)
  qed
qed

lemma headerEffect_platform:
  "PlatformLine p \<in> set hs \<Longrightarrow> \<forall>p'. PlatformLine p' \<in> set hs \<longrightarrow> p' = p \<Longrightarrow>
   Platform (q (foldl headerEffect st hs)) = normalizePlatform p"
proof (induction hs rule: rev_induct)
  case Nil
  then show ?case by simp
next
  case (snoc a hs)
  have uniq: "\<forall>p'. PlatformLine p' \<in> set hs \<longrightarrow> p' = p"
    using snoc.prems(2) by auto
  show ?case
  proof (cases "\<exists>p'. a = PlatformLine p'")
    case True
    then obtain p' where a: "a = PlatformLine p'" by blast
    with snoc.prems(2) have "p' = p" by auto
    with a show ?thesis by (simp only: foldl_append foldl.simps headerEffect_own_field)
  next
    case False
    with snoc.prems(1) have mem: "PlatformLine p \<in> set hs" by auto
    from False have "Platform (q (headerEffect (foldl headerEffect st hs) a))
        = Platform (q (foldl headerEffect st hs))"
      by (cases a) (simp_all only: headerEffect_other_fields, blast)
    with snoc.IH [OF mem uniq] show ?thesis by (simp only: foldl_append foldl.simps)
  qed
qed

lemma headerEffect_interval:
  "IntervalLine n \<in> set hs \<Longrightarrow> \<forall>n'. IntervalLine n' \<in> set hs \<longrightarrow> n' = n \<Longrightarrow>
   Interval (q (foldl headerEffect st hs)) = n"
proof (induction hs rule: rev_induct)
  case Nil
  then show ?case by simp
next
  case (snoc a hs)
  have uniq: "\<forall>n'. IntervalLine n' \<in> set hs \<longrightarrow> n' = n"
    using snoc.prems(2) by auto
  show ?case
  proof (cases "\<exists>n'. a = IntervalLine n'")
    case True
    then obtain n' where a: "a = IntervalLine n'" by blast
    with snoc.prems(2) have "n' = n" by auto
    with a show ?thesis by (simp only: foldl_append foldl.simps headerEffect_own_field)
  next
    case False
    with snoc.prems(1) have mem: "IntervalLine n \<in> set hs" by auto
    from False have "Interval (q (headerEffect (foldl headerEffect st hs) a))
        = Interval (q (foldl headerEffect st hs))"
      by (cases a) (simp_all only: headerEffect_other_fields, blast)
    with snoc.IH [OF mem uniq] show ?thesis by (simp only: foldl_append foldl.simps)
  qed
qed

lemma headerEffect_firstComment:
  "firstComment (foldl headerEffect st hs)
     = (firstComment st \<and> (\<forall>d. DescriptionLine d \<notin> set hs))"
proof (induction hs rule: rev_induct)
  case Nil
  then show ?case by simp
next
  case (snoc a hs)
  have "firstComment (headerEffect s a) = (firstComment s \<and> (\<forall>d. a \<noteq> DescriptionLine d))" for s
    by (cases a) simp_all
  with snoc show ?case by auto
qed

lemma headerEffect_description:
  "firstComment st \<Longrightarrow> DescriptionLine d \<in> set hs \<Longrightarrow>
   \<forall>d'. DescriptionLine d' \<in> set hs \<longrightarrow> d' = d \<Longrightarrow>
   Description (q (foldl headerEffect st hs)) = d"
proof (induction hs rule: rev_induct)
  case Nil
  then show ?case by simp
next
  case (snoc a hs)
  have uniq: "\<forall>d'. DescriptionLine d' \<in> set hs \<longrightarrow> d' = d"
    using snoc.prems(3) by auto
  show ?case
  proof (cases "\<exists>d'. a = DescriptionLine d'")
    case True
    then obtain d' where a: "a = DescriptionLine d'" by blast
    with snoc.prems(3) have same: "d' = d" by auto
    show ?thesis
    proof (cases "firstComment (foldl headerEffect st hs)")
      case fc: True
      with a same show ?thesis by (simp only: foldl_append foldl.simps headerEffect_own_field if_True)
    next
      case fc: False
      with snoc.prems(1) obtain d0 where "DescriptionLine d0 \<in> set hs"
        unfolding headerEffect_firstComment by blast
      with uniq have mem: "DescriptionLine d \<in> set hs" by blast
      from snoc.IH [OF snoc.prems(1) mem uniq] a fc show ?thesis
        by (simp only: foldl_append foldl.simps headerEffect_own_field if_False)
    qed
  next
    case False
    with snoc.prems(2) have mem: "DescriptionLine d \<in> set hs" by auto
    from False have "Description (q (headerEffect (foldl headerEffect st hs) a))
        = Description (q (foldl headerEffect st hs))"
      by (cases a) (simp_all only: headerEffect_other_fields, blast)
    with snoc.IH [OF snoc.prems(1) mem uniq] show ?thesis by (simp only: foldl_append foldl.simps)
  qed
qed

lemma blank_lines_frame:
  "inHeader st \<Longrightarrow> list_all (\<lambda>l. \<not> isComment l \<and> isBlank l) ls \<Longrightarrow>
   q (foldl scanLine st ls) = q st"
proof (induction ls arbitrary: st)
  case Nil
  then show ?case by simp
next
  case (Cons l ls)
  from Cons.prems have p: "\<not> isComment l" "isBlank l" and r: "list_all (\<lambda>l. \<not> isComment l \<and> isBlank l) ls"
    by simp_all
  have s: "scanLine st l = st\<lparr>sqlLines := sqlLines st @ [l]\<rparr>"
    using Cons.prems(1) p by (rule scanLine_blank)
  have h: "inHeader (st\<lparr>sqlLines := sqlLines st @ [l]\<rparr>)"
    using Cons.prems(1) by simp
  from Cons.IH [OF h r] s show ?case by simp
qed

lemma rest_frame:
  assumes h: "inHeader st" and r: "list_all (\<lambda>l. \<not> isComment l) (headerLines rest)"
  shows "q (foldl scanLine st rest) = q st"
proof -
  have "isComment l \<or> isBlank l" if "l \<in> set (headerLines rest)" for l
    using that unfolding headerLines_def by (rule set_takeWhileD [THEN conjunct2])
  moreover have "\<not> isComment l" if "l \<in> set (headerLines rest)" for l
    using r that by (simp add: list_all_iff)
  ultimately have "list_all (\<lambda>l. \<not> isComment l \<and> isBlank l) (headerLines rest)"
    unfolding list_all_iff by blast
  from blank_lines_frame [OF h this]
  have "q (foldl scanLine st (headerLines rest)) = q st" .
  moreover have "q (foldl scanLine st rest) = q (foldl scanLine st (headerLines rest))"
    using foldl_scanLine_split [OF h, of rest] by (simp add: Let_def)
  ultimately show ?thesis by simp
qed

lemma normalizePlatform_fixed:
  "(normalizePlatform p = p) = (p = ''darwin'' \<or> p = ''linux'' \<or> p = ''windows'' \<or> p = [])"
proof -
  have a: "normalizePlatform ''darwin'' = ''darwin''" "normalizePlatform ''linux'' = ''linux''"
    "normalizePlatform ''windows'' = ''windows''" "normalizePlatform [] = []"
    "normalizePlatform ''darwin,linux'' = []"
    by code_simp+
  have r: "normalizePlatform p \<in> {''darwin'', ''linux'', ''darwin,linux'', ''windows'', []}"
    by (simp add: normalizePlatform_def Let_def)
  show ?thesis
  proof
    assume e: "normalizePlatform p = p"
    with r have "p \<in> {''darwin'', ''linux'', ''darwin,linux'', ''windows'', []}" by simp
    with e a(5) show "p = ''darwin'' \<or> p = ''linux'' \<or> p = ''windows'' \<or> p = []"
      by auto
  next
    assume "p = ''darwin'' \<or> p = ''linux'' \<or> p = ''windows'' \<or> p = []"
    with a show "normalizePlatform p = p" by auto
  qed
qed

text \<open>
  C2, as amended. A file begins with a header block of valid lines, in any order: a
  description line, a tags line, a platform line and an interval line; no comment line
  stands between the block and the query. Parsing it gives back the description, the tags
  and the interval that were written, and the platform parsed is the normalization of the
  token written: it is the token itself exactly when the token is \<^verbatim>\<open>darwin\<close>,
  \<^verbatim>\<open>linux\<close> or \<^verbatim>\<open>windows\<close>.
\<close>

theorem header_roundtrip:
  assumes valid: "list_all spec_valid hs"
    and block: "set hs = {DescriptionLine d, TagsLine ts, PlatformLine p, IntervalLine n}"
    and rest: "list_all (\<lambda>l. \<not> isComment l) (headerLines rest)"
  shows "Description (fst (parseQuery U dirs base category (Some (map spec_render hs @ rest, err)))) = d
     \<and> Tags (fst (parseQuery U dirs base category (Some (map spec_render hs @ rest, err)))) = ts
     \<and> Interval (fst (parseQuery U dirs base category (Some (map spec_render hs @ rest, err)))) = n
     \<and> Platform (fst (parseQuery U dirs base category (Some (map spec_render hs @ rest, err))))
         = normalizePlatform p
     \<and> (Platform (fst (parseQuery U dirs base category (Some (map spec_render hs @ rest, err)))) = p)
         = (p = ''darwin'' \<or> p = ''linux'' \<or> p = ''windows'')"
proof -
  define st0 where "st0 = scanStart (recordBeforeScan U dirs base category)"
  define st1 where "st1 = foldl headerEffect st0 hs"
  define st2 where "st2 = foldl scanLine st0 (map spec_render hs @ rest)"
  have h0: "inHeader st0" and f0: "firstComment st0"
    by (simp_all add: st0_def scanStart_simps)
  have "foldl scanLine st0 (map spec_render hs) = st1"
    unfolding st1_def using h0 valid by (rule foldl_rendered)
  then have st2: "st2 = foldl scanLine st1 rest"
    by (simp add: st2_def)
  have h1: "inHeader st1"
    by (simp add: st1_def foldl_headerEffect_inHeader h0)
  have q2: "q st2 = q st1"
    unfolding st2 using h1 rest by (rule rest_frame)
  from block have mem: "DescriptionLine d \<in> set hs" "TagsLine ts \<in> set hs"
    "PlatformLine p \<in> set hs" "IntervalLine n \<in> set hs"
    and uniq: "\<forall>d'. DescriptionLine d' \<in> set hs \<longrightarrow> d' = d" "\<forall>ts'. TagsLine ts' \<in> set hs \<longrightarrow> ts' = ts"
    "\<forall>p'. PlatformLine p' \<in> set hs \<longrightarrow> p' = p" "\<forall>n'. IntervalLine n' \<in> set hs \<longrightarrow> n' = n"
    by simp_all
  have D: "Description (q st2) = d"
    unfolding q2 st1_def using f0 mem(1) uniq(1) by (rule headerEffect_description)
  have T: "Tags (q st2) = ts"
    unfolding q2 st1_def using mem(2) uniq(2) by (rule headerEffect_tags)
  have P: "Platform (q st2) = normalizePlatform p"
    unfolding q2 st1_def using mem(3) uniq(3) by (rule headerEffect_platform)
  have I: "Interval (q st2) = n"
    unfolding q2 st1_def using mem(4) uniq(4) by (rule headerEffect_interval)
  from valid mem(1,3) have "spec_valid (DescriptionLine d)" "spec_valid (PlatformLine p)"
    by (auto simp: list_all_iff)
  then have dne: "d \<noteq> []" and pne: "p \<noteq> []"
    by (simp_all add: spec_token_def)
  have pq: "fst (parseQuery U dirs base category (Some (map spec_render hs @ rest, err)))
      = (if Description (q st2) = []
         then (q st2)\<lparr>Query := trimSpace (join (dropWhile isBlank (sqlLines st2)) [newline]),
                        Description := Name (q st2)\<rparr>
         else (q st2)\<lparr>Query := trimSpace (join (dropWhile isBlank (sqlLines st2)) [newline])\<rparr>)"
    unfolding parseQuery_scanned st2_def st0_def by (simp add: Let_def del: foldl_append)
  have fields: "Description (fst (parseQuery U dirs base category (Some (map spec_render hs @ rest, err)))) = d"
    "Tags (fst (parseQuery U dirs base category (Some (map spec_render hs @ rest, err)))) = ts"
    "Interval (fst (parseQuery U dirs base category (Some (map spec_render hs @ rest, err)))) = n"
    "Platform (fst (parseQuery U dirs base category (Some (map spec_render hs @ rest, err))))
         = normalizePlatform p"
    unfolding pq using D T P I dne by simp_all
  show ?thesis
    using fields pne by (simp add: normalizePlatform_fixed)
qed

theorem header_roundtrip_witness:
  "\<forall>U. Description (fst (parseQuery U [] ''example.sql'' ''detection''
         (Some ([''-- tags: mitre ta0002'', ''-- Unusual child process'', ''-- interval: 60'',
                 ''-- platform: posix'', '''', ''SELECT 1;'', ''-- tags: later''], None))))
     = ''Unusual child process''
   \<and> Tags (fst (parseQuery U [] ''example.sql'' ''detection''
         (Some ([''-- tags: mitre ta0002'', ''-- Unusual child process'', ''-- interval: 60'',
                 ''-- platform: posix'', '''', ''SELECT 1;'', ''-- tags: later''], None))))
     = [''mitre'', ''ta0002'']
   \<and> Interval (fst (parseQuery U [] ''example.sql'' ''detection''
         (Some ([''-- tags: mitre ta0002'', ''-- Unusual child process'', ''-- interval: 60'',
                 ''-- platform: posix'', '''', ''SELECT 1;'', ''-- tags: later''], None))))
     = 60
   \<and> Platform (fst (parseQuery U [] ''example.sql'' ''detection''
         (Some ([''-- tags: mitre ta0002'', ''-- Unusual child process'', ''-- interval: 60'',
                 ''-- platform: posix'', '''', ''SELECT 1;'', ''-- tags: later''], None))))
     = normalizePlatform ''posix''"
proof
  fix U
  have v: "list_all spec_valid exampleHeader"
    by code_simp
  have b: "set exampleHeader = {DescriptionLine ''Unusual child process'',
      TagsLine [''mitre'', ''ta0002''], PlatformLine ''posix'', IntervalLine 60}"
    by (auto simp: exampleHeader_def)
  have r: "list_all (\<lambda>l. \<not> isComment l) (headerLines ['''', ''SELECT 1;'', ''-- tags: later''])"
    by code_simp
  have f: "map spec_render exampleHeader @ ['''', ''SELECT 1;'', ''-- tags: later'']
     = [''-- tags: mitre ta0002'', ''-- Unusual child process'', ''-- interval: 60'',
        ''-- platform: posix'', '''', ''SELECT 1;'', ''-- tags: later'']"
    by code_simp
  from header_roundtrip [OF v b r, of U "[]" "''example.sql''" "''detection''" None]
  show "Description (fst (parseQuery U [] ''example.sql'' ''detection''
         (Some ([''-- tags: mitre ta0002'', ''-- Unusual child process'', ''-- interval: 60'',
                 ''-- platform: posix'', '''', ''SELECT 1;'', ''-- tags: later''], None))))
     = ''Unusual child process''
   \<and> Tags (fst (parseQuery U [] ''example.sql'' ''detection''
         (Some ([''-- tags: mitre ta0002'', ''-- Unusual child process'', ''-- interval: 60'',
                 ''-- platform: posix'', '''', ''SELECT 1;'', ''-- tags: later''], None))))
     = [''mitre'', ''ta0002'']
   \<and> Interval (fst (parseQuery U [] ''example.sql'' ''detection''
         (Some ([''-- tags: mitre ta0002'', ''-- Unusual child process'', ''-- interval: 60'',
                 ''-- platform: posix'', '''', ''SELECT 1;'', ''-- tags: later''], None))))
     = 60
   \<and> Platform (fst (parseQuery U [] ''example.sql'' ''detection''
         (Some ([''-- tags: mitre ta0002'', ''-- Unusual child process'', ''-- interval: 60'',
                 ''-- platform: posix'', '''', ''SELECT 1;'', ''-- tags: later''], None))))
     = normalizePlatform ''posix''"
    unfolding f by blast
qed

text \<open>
  C2 as stated fails for the platform: the valid token \<^verbatim>\<open>posix\<close> is parsed as
  \<^verbatim>\<open>darwin,linux\<close>, not as the value written.
\<close>

theorem header_roundtrip_counterexample:
  "\<forall>U. list_all spec_valid exampleHeader
   \<and> map spec_render exampleHeader
       = [''-- tags: mitre ta0002'', ''-- Unusual child process'', ''-- interval: 60'',
          ''-- platform: posix'']
   \<and> Platform (fst (parseQuery U [] ''example.sql'' ''detection''
         (Some ([''-- tags: mitre ta0002'', ''-- Unusual child process'', ''-- interval: 60'',
                 ''-- platform: posix'', ''SELECT 1;''], None))))
       = ''darwin,linux''
   \<and> Platform (fst (parseQuery U [] ''example.sql'' ''detection''
         (Some ([''-- tags: mitre ta0002'', ''-- Unusual child process'', ''-- interval: 60'',
                 ''-- platform: posix'', ''SELECT 1;''], None))))
       \<noteq> ''posix''"
proof
  fix U
  show "list_all spec_valid exampleHeader
   \<and> map spec_render exampleHeader
       = [''-- tags: mitre ta0002'', ''-- Unusual child process'', ''-- interval: 60'',
          ''-- platform: posix'']
   \<and> Platform (fst (parseQuery U [] ''example.sql'' ''detection''
         (Some ([''-- tags: mitre ta0002'', ''-- Unusual child process'', ''-- interval: 60'',
                 ''-- platform: posix'', ''SELECT 1;''], None))))
       = ''darwin,linux''
   \<and> Platform (fst (parseQuery U [] ''example.sql'' ''detection''
         (Some ([''-- tags: mitre ta0002'', ''-- Unusual child process'', ''-- interval: 60'',
                 ''-- platform: posix'', ''SELECT 1;''], None))))
       \<noteq> ''posix''"
    by code_simp
qed

subsection \<open>The categories of the records\<close>

text \<open>Every record that the extractor produces belongs to one of the three categories.\<close>

lemma foldl_scanLine_category: "Category (q (foldl scanLine st ls)) = Category (q st)"
  by (induction ls arbitrary: st) (simp_all add: scanLine_frame)

lemma parseQuery_category:
  "Category (fst (parseQuery U dirs base category (Some scanned))) = category"
  by (cases scanned)
     (simp add: parseQuery_scanned Let_def foldl_scanLine_category scanStart_simps
        recordBeforeScan_def)

lemma parseCategory_category:
  "list_all (\<lambda>qu. Category qu = category) (parseCategory U category files)"
proof -
  have "Category query = category"
    if "parseQuery U dirs base category src = (query, None)" for dirs base src query
  proof (cases src)
    case None
    with that show ?thesis by (simp add: parseQuery_def)
  next
    case (Some f)
    with that parseQuery_category [of U dirs base category f] show ?thesis by simp
  qed
  then have one: "list_all (\<lambda>qu. Category qu = category)
      (case parseQuery U dirs base category src of (query, None) \<Rightarrow> [query]
       | (query, Some err) \<Rightarrow> [])" for dirs base src
    by (cases "parseQuery U dirs base category src"; cases "snd (parseQuery U dirs base category src)")
       auto
  show ?thesis
    unfolding parseCategory_def
    by (induction files) (auto simp: one)
qed

lemma parseCategories_known:
  "parseCategories U upstream acc cs = Inr queries \<Longrightarrow>
   list_all (\<lambda>qu. Category qu \<in> set categories) acc \<Longrightarrow> set cs \<subseteq> set categories \<Longrightarrow>
   list_all (\<lambda>qu. Category qu \<in> set categories) queries"
proof (induction cs arbitrary: acc)
  case Nil
  then show ?case by simp
next
  case (Cons c cs)
  show ?case
  proof (cases "upstream c")
    case None
    with Cons.prems have "parseCategories U upstream acc cs = Inr queries" by simp
    from Cons.IH [OF this Cons.prems(2)] Cons.prems(3) show ?thesis by simp
  next
    case (Some r)
    show ?thesis
    proof (cases r)
      case (Inl e)
      with Some Cons.prems(1) show ?thesis by simp
    next
      case (Inr files)
      with Some Cons.prems(1)
      have run: "parseCategories U upstream (acc @ parseCategory U c files) cs = Inr queries"
        by simp
      from Cons.prems(3) have c: "c \<in> set categories" by simp
      have "list_all (\<lambda>qu. Category qu \<in> set categories) (parseCategory U c files)"
        using parseCategory_category [of c U files] c by (simp add: list_all_iff)
      with Cons.prems(2) have "list_all (\<lambda>qu. Category qu \<in> set categories) (acc @ parseCategory U c files)"
        by simp
      from Cons.IH [OF run this] Cons.prems(3) show ?thesis by simp
    qed
  qed
qed

lemma parseAllQueries_categories:
  "parseAllQueries U upstream = Inr queries \<Longrightarrow>
   list_all (\<lambda>qu. Category qu \<in> set categories) queries"
proof -
  assume "parseAllQueries U upstream = Inr queries"
  then have "parseCategories U upstream [] categories = Inr queries"
    by (simp only: parseAllQueries_def categories_def)
  then show ?thesis
    by (rule parseCategories_known) simp_all
qed

end
